theory Spec2Isabelle
  imports Main "HOL-Library.Sublist" "HOL-Library.List_Lexorder" "HOL-Library.Char_ord"
begin

section \<open>Strings\<close>

text \<open>
  A Python \<open>str\<close> is modelled as a \<open>string\<close>: a list of characters, each character being
  one code point below 256.  The literals of the program that lie outside this range (the
  Cyrillic log lines) are represented by constructors, never by text.
\<close>

abbreviation newline :: char where "newline \<equiv> CHR 0x0A"
abbreviation carriage_return :: char where "carriage_return \<equiv> CHR 0x0D"

text \<open>\<open>str.isspace\<close> on one code point below 256; \<open>str.strip()\<close> and the pattern
  class \<open>\s\<close> both use it.\<close>

definition is_space :: "char \<Rightarrow> bool" where
  "is_space c \<longleftrightarrow>
     c \<in> {CHR 0x09, CHR 0x0A, CHR 0x0B, CHR 0x0C, CHR 0x0D,
          CHR 0x1C, CHR 0x1D, CHR 0x1E, CHR 0x1F, CHR 0x20, CHR 0x85, CHR 0xA0}"

definition lstrip :: "string \<Rightarrow> string" where
  "lstrip s = dropWhile is_space s"

definition rstrip :: "string \<Rightarrow> string" where
  "rstrip s = rev (dropWhile is_space (rev s))"

definition strip :: "string \<Rightarrow> string" where
  "strip s = rstrip (lstrip s)"

text \<open>\<open>s.split(sep)\<close> for a separator of one character: the pieces between the
  separators, an empty piece included; never the empty list.\<close>

fun split_on :: "char \<Rightarrow> string \<Rightarrow> string list" where
  "split_on sep [] = [[]]"
| "split_on sep (c # cs) =
     (if c = sep then [] # split_on sep cs
      else (case split_on sep cs of
              [] \<Rightarrow> [[c]]
            | piece # pieces \<Rightarrow> (c # piece) # pieces))"

text \<open>\<open>sep.join(pieces)\<close>.\<close>

fun join_with :: "string \<Rightarrow> string list \<Rightarrow> string" where
  "join_with sep [] = []"
| "join_with sep [p] = p"
| "join_with sep (p # q # ps) = p @ sep @ join_with sep (q # ps)"

text \<open>\<open>s.rfind(c)\<close>: the last index of \<open>c\<close>, or \<open>-1\<close>.\<close>

fun rfind :: "char \<Rightarrow> string \<Rightarrow> int" where
  "rfind c [] = -1"
| "rfind c (d # ds) =
     (let r = rfind c ds in
      if r \<ge> 0 then r + 1 else if d = c then 0 else -1)"

section \<open>Paths\<close>

text \<open>
  A \<open>pathlib\<close> path of the POSIX flavour: its anchor (\<open>''''\<close> for a relative path,
  \<open>''/''\<close> or \<open>''//''\<close> for an absolute one) and its components after the anchor.
\<close>

datatype path = Path (anchor: string) (tail: "string list")

text \<open>\<open>Path(s)\<close>: the anchor is the leading slashes (two of them are kept, three or
  more collapse to one); empty components and \<open>.\<close> are dropped.\<close>

definition parse_anchor :: "string \<Rightarrow> string" where
  "parse_anchor s =
     (let n = length (takeWhile (\<lambda>c. c = CHR ''/'') s) in
      if n = 0 then '''' else if n = 2 then ''//'' else ''/'')"

definition parse_path :: "string \<Rightarrow> path" where
  "parse_path s =
     Path (parse_anchor s) (filter (\<lambda>p. p \<noteq> '''' \<and> p \<noteq> ''.'') (split_on (CHR ''/'') s))"

text \<open>\<open>str(p)\<close>.\<close>

definition path_str :: "path \<Rightarrow> string" where
  "path_str p =
     (if anchor p = '''' \<and> tail p = [] then ''.''
      else anchor p @ join_with ''/'' (tail p))"

text \<open>\<open>p.name\<close>, \<open>p.parent\<close>, \<open>p.suffix\<close>, \<open>p.stem\<close>.\<close>

definition path_name :: "path \<Rightarrow> string" where
  "path_name p = (if tail p = [] then '''' else last (tail p))"

definition path_parent :: "path \<Rightarrow> path" where
  "path_parent p = (if tail p = [] then p else Path (anchor p) (butlast (tail p)))"

definition path_suffix :: "path \<Rightarrow> string" where
  "path_suffix p =
     (let name = path_name p; i = rfind (CHR ''.'') name in
      if 0 < i \<and> i < int (length name) - 1 then drop (nat i) name else '''')"

definition path_stem :: "path \<Rightarrow> string" where
  "path_stem p =
     (let name = path_name p; i = rfind (CHR ''.'') name in
      if 0 < i \<and> i < int (length name) - 1 then take (nat i) name else name)"

text \<open>\<open>p / q\<close> for two paths: an anchored right operand replaces the left one.\<close>

definition joinpath :: "path \<Rightarrow> path \<Rightarrow> path" where
  "joinpath p q = (if anchor q \<noteq> '''' then q else Path (anchor p) (tail p @ tail q))"

text \<open>\<open>p / s\<close> for a string \<open>s\<close>.\<close>

definition join_str :: "path \<Rightarrow> string \<Rightarrow> path" where
  "join_str p s = joinpath p (parse_path s)"

text \<open>Exceptions: the qualified name of the class and \<open>str(e)\<close>.\<close>

datatype exn = Exn (exc_type: string) (exc_msg: string)

text \<open>\<open>p.relative_to(other)\<close>: \<open>other\<close> has to be \<open>p\<close> or one of its parents,
  otherwise it raises \<open>ValueError\<close>, which is \<open>None\<close> here.\<close>

definition relative_to :: "path \<Rightarrow> path \<Rightarrow> path option" where
  "relative_to p other =
     (if anchor other = anchor p \<and> prefix (tail other) (tail p)
      then Some (Path '''' (drop (length (tail other)) (tail p)))
      else None)"

section \<open>The conversion task\<close>

record task =
  files :: "path list"
  out_dir :: path
  theme :: string
  font_family :: string
  preserve_structure :: bool
  base_root :: "path option"

text \<open>\<open>ConvertTask._compute_out_path\<close>.  A \<open>Path\<close> object is always true, so
  \<open>self.base_root\<close> is false only when it is \<open>None\<close>; \<open>Path()\<close> has no components.\<close>

definition compute_out_path :: "task \<Rightarrow> path \<Rightarrow> path" where
  "compute_out_path t md_path =
     (let safe_name = path_stem md_path @ ''.pdf'' in
      case (if preserve_structure t then base_root t else None) of
        Some base \<Rightarrow>
          (let rel_parent = (case relative_to (path_parent md_path) base of
                               None \<Rightarrow> Path '''' []
                             | Some r \<Rightarrow> r)
           in join_str (joinpath (out_dir t) rel_parent) safe_name)
      | None \<Rightarrow> join_str (out_dir t) safe_name)"

section \<open>Output paths\<close>

lemma split_on_no_sep: "sep \<notin> set s \<Longrightarrow> split_on sep s = [s]"
  by (induction s) auto

lemma parse_path_single:
  assumes "CHR ''/'' \<notin> set s" "s \<noteq> ''''" "s \<noteq> ''.''"
  shows "parse_path s = Path '''' [s]"
proof -
  have "takeWhile (\<lambda>c. c = CHR ''/'') s = []"
    using assms(1,2) by (cases s) auto
  then have "parse_anchor s = ''''" by (simp add: parse_anchor_def)
  then show ?thesis using assms by (simp add: parse_path_def split_on_no_sep)
qed

lemma stem_suffix: "path_stem p @ path_suffix p = path_name p"
  by (simp add: path_stem_def path_suffix_def Let_def)

lemma set_stem: "set (path_stem p) \<subseteq> set (path_name p)"
  by (auto simp: path_stem_def Let_def dest: in_set_takeD)

lemma safe_name_parse:
  assumes "CHR ''/'' \<notin> set (path_name p)"
  shows "parse_path (path_stem p @ ''.pdf'') = Path '''' [path_stem p @ ''.pdf'']"
proof (rule parse_path_single)
  show "CHR ''/'' \<notin> set (path_stem p @ ''.pdf'')" using assms set_stem[of p] by auto
  show "path_stem p @ ''.pdf'' \<noteq> ''''" by simp
  show "path_stem p @ ''.pdf'' \<noteq> ''.''" by (cases "path_stem p") auto
qed

text \<open>
  C5.  Let the file name be the stem of the source file followed by \<open>.pdf\<close>, the stem being
  the source name without its suffix.  The destination always has this file name.  Without
  structure preservation, and also when no base root is given, the destination is the file
  name directly under the output directory.  With structure preservation and a base root
  that is the source's parent directory or one of its ancestors, the destination is the
  output directory, then the parent directory relative to the base root, then the file
  name.  With a base root that the parent directory is not under, the destination is the
  flat one again.  (A component of a path never contains a slash, which is the hypothesis.)
\<close>

theorem compute_out_path_spec:
  assumes "CHR ''/'' \<notin> set (path_name md_path)"
  shows "path_stem md_path @ path_suffix md_path = path_name md_path
   \<and> path_name (compute_out_path t md_path) = path_stem md_path @ ''.pdf''
   \<and> (\<not> preserve_structure t \<or> base_root t = None \<longrightarrow>
        compute_out_path t md_path =
          Path (anchor (out_dir t)) (tail (out_dir t) @ [path_stem md_path @ ''.pdf'']))
   \<and> (\<forall>base. preserve_structure t \<and> base_root t = Some base
          \<and> anchor base = anchor (path_parent md_path)
          \<and> prefix (tail base) (tail (path_parent md_path)) \<longrightarrow>
        compute_out_path t md_path =
          Path (anchor (out_dir t))
            (tail (out_dir t) @ drop (length (tail base)) (tail (path_parent md_path))
               @ [path_stem md_path @ ''.pdf'']))
   \<and> (\<forall>base. preserve_structure t \<and> base_root t = Some base
          \<and> \<not> (anchor base = anchor (path_parent md_path)
                \<and> prefix (tail base) (tail (path_parent md_path))) \<longrightarrow>
        compute_out_path t md_path =
          Path (anchor (out_dir t)) (tail (out_dir t) @ [path_stem md_path @ ''.pdf'']))"
  using safe_name_parse[OF assms]
  by (auto simp: stem_suffix compute_out_path_def Let_def join_str_def joinpath_def
      path_name_def relative_to_def split: option.splits sum.splits)

theorem compute_out_path_spec_witness:
  "compute_out_path
     \<lparr>files = [], out_dir = Path ''/'' [''out''], theme = ''Light'', font_family = ''Inter'',
      preserve_structure = True, base_root = Some (Path ''/'' [''a''])\<rparr>
     (Path ''/'' [''a'', ''b'', ''x.md'']) = Path ''/'' [''out'', ''b'', ''x.pdf'']
   \<and> compute_out_path
     \<lparr>files = [], out_dir = Path ''/'' [''out''], theme = ''Light'', font_family = ''Inter'',
      preserve_structure = True, base_root = Some (Path ''/'' [''z''])\<rparr>
     (Path ''/'' [''a'', ''b'', ''x.md'']) = Path ''/'' [''out'', ''x.pdf'']
   \<and> compute_out_path
     \<lparr>files = [], out_dir = Path ''/'' [''out''], theme = ''Light'', font_family = ''Inter'',
      preserve_structure = False, base_root = Some (Path ''/'' [''a''])\<rparr>
     (Path ''/'' [''a'', ''b'', ''x.md'']) = Path ''/'' [''out'', ''x.pdf'']"
proof -
  have slash: "CHR ''/'' \<notin> set (path_name (Path ''/'' [''a'', ''b'', ''x.md'']))"
    by (simp add: path_name_def)
  have stem: "path_stem (Path ''/'' [''a'', ''b'', ''x.md'']) = ''x''"
    by (simp add: path_stem_def path_name_def Let_def)
  have parent: "path_parent (Path ''/'' [''a'', ''b'', ''x.md'']) = Path ''/'' [''a'', ''b'']"
    by (simp add: path_parent_def)
  show ?thesis
    using compute_out_path_spec [OF slash, of "\<lparr>files = [], out_dir = Path ''/'' [''out''],
        theme = ''Light'', font_family = ''Inter'', preserve_structure = True,
        base_root = Some (Path ''/'' [''a''])\<rparr>"]
      compute_out_path_spec [OF slash, of "\<lparr>files = [], out_dir = Path ''/'' [''out''],
        theme = ''Light'', font_family = ''Inter'', preserve_structure = True,
        base_root = Some (Path ''/'' [''z''])\<rparr>"]
      compute_out_path_spec [OF slash, of "\<lparr>files = [], out_dir = Path ''/'' [''out''],
        theme = ''Light'', font_family = ''Inter'', preserve_structure = False,
        base_root = Some (Path ''/'' [''a''])\<rparr>"]
    by (simp add: stem parent)
qed

section \<open>Regular expressions\<close>

text \<open>
  The patterns of the program use literals, repetitions of one character class (greedy
  \<open>*\<close> and \<open>+\<close>, lazy \<open>*?\<close>), the anchors \<open>^\<close> and \<open>$\<close>, capturing groups and a greedy
  optional part.  A pattern is a term of \<open>re\<close>; the matcher below is the backtracking
  matcher of Python's \<open>re\<close> module on these constructs: alternatives are tried in the
  order of their priority and the first complete match is the result.
\<close>

datatype re =
    Lit string
  | Star "char \<Rightarrow> bool"
  | Plus "char \<Rightarrow> bool"
  | Lazy "char \<Rightarrow> bool"
  | Bol_multiline
  | Bol_string
  | Eol_multiline
  | Group nat re
  | Opt re
  | Cat re re

text \<open>\<open>seq [r1, r2, ...]\<close> is the concatenation \<open>r1 r2 ...\<close>.\<close>

fun seq :: "re list \<Rightarrow> re" where
  "seq [] = Lit ''''"
| "seq [r] = r"
| "seq (r # rs) = Cat r (seq rs)"

text \<open>The number of capturing groups of a pattern (\<open>pattern.groups\<close>).\<close>

fun ngroups :: "re \<Rightarrow> nat" where
  "ngroups (Group i r) = Suc (ngroups r)"
| "ngroups (Opt r) = ngroups r"
| "ngroups (Cat r1 r2) = ngroups r1 + ngroups r2"
| "ngroups r = 0"

text \<open>
  A position of the matcher: the text before it (reversed, nearest character first), the
  text after it, and the groups captured so far (the most recent binding first).
\<close>

type_synonym mstate = "string \<times> string \<times> (nat \<times> string) list"

fun lit :: "string \<Rightarrow> mstate \<Rightarrow> mstate option" where
  "lit [] st = Some st"
| "lit (x # xs) (b, [], g) = None"
| "lit (x # xs) (b, c # cs, g) = (if x = c then lit xs (c # b, cs, g) else None)"

text \<open>Greedy repetition of a class: take one more character first, and fall back to
  the continuation at the current position when that fails.\<close>

fun star_greedy :: "(char \<Rightarrow> bool) \<Rightarrow> (mstate \<Rightarrow> 'a option) \<Rightarrow> mstate \<Rightarrow> 'a option" where
  "star_greedy P k (b, [], g) = k (b, [], g)"
| "star_greedy P k (b, c # cs, g) =
     (if P c
      then (case star_greedy P k (c # b, cs, g) of
              Some r \<Rightarrow> Some r
            | None \<Rightarrow> k (b, c # cs, g))
      else k (b, c # cs, g))"

text \<open>Lazy repetition: the continuation at the current position first, one more
  character only when that fails.\<close>

fun star_lazy :: "(char \<Rightarrow> bool) \<Rightarrow> (mstate \<Rightarrow> 'a option) \<Rightarrow> mstate \<Rightarrow> 'a option" where
  "star_lazy P k (b, [], g) = k (b, [], g)"
| "star_lazy P k (b, c # cs, g) =
     (case k (b, c # cs, g) of
        Some r \<Rightarrow> Some r
      | None \<Rightarrow> if P c then star_lazy P k (c # b, cs, g) else None)"

text \<open>\<open>rmatch r k st\<close>: match \<open>r\<close> at \<open>st\<close> and go on with the continuation \<open>k\<close>; \<open>None\<close>
  when every alternative fails.\<close>

fun rmatch :: "re \<Rightarrow> (mstate \<Rightarrow> 'a option) \<Rightarrow> mstate \<Rightarrow> 'a option" where
  "rmatch (Lit s) k st = (case lit s st of None \<Rightarrow> None | Some st' \<Rightarrow> k st')"
| "rmatch (Star P) k st = star_greedy P k st"
| "rmatch (Plus P) k (b, [], g) = None"
| "rmatch (Plus P) k (b, c # cs, g) = (if P c then star_greedy P k (c # b, cs, g) else None)"
| "rmatch (Lazy P) k st = star_lazy P k st"
| "rmatch Bol_multiline k (b, s, g) =
     (if b = [] \<or> hd b = newline then k (b, s, g) else None)"
| "rmatch Bol_string k (b, s, g) = (if b = [] then k (b, s, g) else None)"
| "rmatch Eol_multiline k (b, s, g) =
     (if s = [] \<or> hd s = newline then k (b, s, g) else None)"
| "rmatch (Group i r) k (b, s, g) =
     rmatch r (\<lambda>(b', s', g'). k (b', s', (i, take (length s - length s') s) # g')) (b, s, g)"
| "rmatch (Opt r) k st =
     (case rmatch r k st of Some x \<Rightarrow> Some x | None \<Rightarrow> k st)"
| "rmatch (Cat r1 r2) k st = rmatch r1 (rmatch r2 k) st"

text \<open>
  A match object: the position where the match starts and the position where it ends
  (with the groups).  \<open>group m 0\<close> is the matched text, \<open>group m i\<close> the text of group \<open>i\<close>,
  \<open>None\<close> for a group that took no part in the match.
\<close>

datatype rmatch_obj = Match (m_before: string) (m_text: string) (m_end: mstate)

fun group :: "rmatch_obj \<Rightarrow> nat \<Rightarrow> string option" where
  "group (Match b s (b', s', g)) i =
     (if i = 0 then Some (take (length s - length s') s) else map_of g i)"

text \<open>The end of a match is accepted unless the search has to advance and the match is
  empty (the search that follows an empty match, in \<open>re.sub\<close>).\<close>

fun accept :: "bool \<Rightarrow> string \<Rightarrow> mstate \<Rightarrow> mstate option" where
  "accept must_advance s (b', s', g') =
     (if must_advance \<and> length s' = length s then None else Some (b', s', g'))"

text \<open>\<open>search\<close>: the match at the leftmost position that has one.  Only the first
  position tried is subject to \<open>must_advance\<close>.\<close>

fun search :: "re \<Rightarrow> bool \<Rightarrow> string \<Rightarrow> string \<Rightarrow> rmatch_obj option" where
  "search r must_advance b [] =
     (case rmatch r (accept must_advance []) (b, [], []) of
        Some e \<Rightarrow> Some (Match b [] e)
      | None \<Rightarrow> None)"
| "search r must_advance b (c # cs) =
     (case rmatch r (accept must_advance (c # cs)) (b, c # cs, []) of
        Some e \<Rightarrow> Some (Match b (c # cs) e)
      | None \<Rightarrow> search r False (c # b) cs)"

text \<open>\<open>re.search(pattern, text)\<close>.\<close>

definition re_search :: "re \<Rightarrow> string \<Rightarrow> rmatch_obj option" where
  "re_search r s = search r False [] s"

subsection \<open>The matcher only moves forward\<close>

text \<open>\<open>ext st st'\<close>: the position \<open>st'\<close> is reached from \<open>st\<close> by reading some text.\<close>

definition ext :: "mstate \<Rightarrow> mstate \<Rightarrow> bool" where
  "ext st st' \<longleftrightarrow> (\<exists>u. fst (snd st) = u @ fst (snd st') \<and> fst st' = rev u @ fst st)"

lemma ext_refl: "ext st st"
  by (simp add: ext_def)

lemma ext_trans: "ext st1 st2 \<Longrightarrow> ext st2 st3 \<Longrightarrow> ext st1 st3"
  by (auto simp: ext_def)

lemma ext_step: "ext (c # b, cs, g) st' \<Longrightarrow> ext (b, c # cs, g) st'"
  by (auto simp: ext_def)

lemma ext_groups: "ext st (b', s', g') \<Longrightarrow> ext st (b', s', g'')"
  by (simp add: ext_def)

lemma lit_ext: "lit x st = Some st' \<Longrightarrow> ext st st'"
proof (induction x st rule: lit.induct)
  case (3 x xs b c cs g)
  then show ?case by (auto split: if_splits intro: ext_step)
qed (auto simp: ext_refl)

lemma star_greedy_ext:
  "star_greedy P k st = Some x \<Longrightarrow> \<exists>st'. ext st st' \<and> k st' = Some x"
proof (induction P k st rule: star_greedy.induct)
  case (1 P k b g)
  then have "k (b, [], g) = Some x" by simp
  then have "ext (b, [], g) (b, [], g) \<and> k (b, [], g) = Some x" by (simp add: ext_refl)
  then show ?case by (rule exI)
next
  case (2 P k b c cs g)
  show ?case
  proof (cases "P c \<and> star_greedy P k (c # b, cs, g) \<noteq> None")
    case True
    then have pc: "P c" and sg: "star_greedy P k (c # b, cs, g) = Some x"
      using 2(2) by auto
    from 2(1)[OF pc sg] obtain st' where "ext (c # b, cs, g) st'" "k st' = Some x"
      by (elim exE conjE)
    then have "ext (b, c # cs, g) st' \<and> k st' = Some x" by (simp add: ext_step)
    then show ?thesis by (rule exI)
  next
    case False
    then have "k (b, c # cs, g) = Some x" using 2(2) by (auto split: option.splits if_splits)
    then have "ext (b, c # cs, g) (b, c # cs, g) \<and> k (b, c # cs, g) = Some x"
      by (simp add: ext_refl)
    then show ?thesis by (rule exI)
  qed
qed

lemma star_lazy_ext:
  "star_lazy P k st = Some x \<Longrightarrow> \<exists>st'. ext st st' \<and> k st' = Some x"
proof (induction P k st rule: star_lazy.induct)
  case (1 P k b g)
  then have "k (b, [], g) = Some x" by simp
  then have "ext (b, [], g) (b, [], g) \<and> k (b, [], g) = Some x" by (simp add: ext_refl)
  then show ?case by (rule exI)
next
  case (2 P k b c cs g)
  show ?case
  proof (cases "k (b, c # cs, g)")
    case None
    then have "P c" "star_lazy P k (c # b, cs, g) = Some x"
      using 2(2) by (auto split: if_splits)
    from 2(1)[OF None this] obtain st' where "ext (c # b, cs, g) st'" "k st' = Some x"
      by (elim exE conjE)
    then have "ext (b, c # cs, g) st' \<and> k st' = Some x" by (simp add: ext_step)
    then show ?thesis by (rule exI)
  next
    case (Some y)
    then have "k (b, c # cs, g) = Some x" using 2(2) by auto
    then have "ext (b, c # cs, g) (b, c # cs, g) \<and> k (b, c # cs, g) = Some x"
      by (simp add: ext_refl)
    then show ?thesis by (rule exI)
  qed
qed

lemma rmatch_ext:
  "rmatch r k st = Some x \<Longrightarrow> \<exists>st'. ext st st' \<and> k st' = Some x"
proof (induction r arbitrary: k st x)
  case (Lit s)
  show ?case
  proof (cases "lit s st")
    case None
    then show ?thesis using Lit by simp
  next
    case (Some st')
    then have "k st' = Some x" using Lit by simp
    moreover have "ext st st'" using Some by (rule lit_ext)
    ultimately show ?thesis by (intro exI[of _ st'] conjI)
  qed
next
  case (Star P)
  then have "star_greedy P k st = Some x" by simp
  then show ?case by (rule star_greedy_ext)
next
  case (Plus P)
  obtain b s g where st: "st = (b, s, g)" by (cases st)
  show ?case
  proof (cases s)
    case Nil
    then show ?thesis using Plus st by simp
  next
    case (Cons c cs)
    then have "star_greedy P k (c # b, cs, g) = Some x"
      using Plus st by (simp split: if_splits)
    from star_greedy_ext[OF this] obtain st' where "ext (c # b, cs, g) st'" "k st' = Some x"
      by (elim exE conjE)
    then have "ext st st' \<and> k st' = Some x" using st Cons by (simp add: ext_step)
    then show ?thesis by (rule exI)
  qed
next
  case (Lazy P)
  then have "star_lazy P k st = Some x" by simp
  then show ?case by (rule star_lazy_ext)
next
  case Bol_multiline
  obtain b s g where st: "st = (b, s, g)" by (cases st)
  then have "k st = Some x" using Bol_multiline by (simp split: if_splits)
  then have "ext st st \<and> k st = Some x" by (simp add: ext_refl)
  then show ?case by (rule exI)
next
  case Bol_string
  obtain b s g where st: "st = (b, s, g)" by (cases st)
  then have "k st = Some x" using Bol_string by (simp split: if_splits)
  then have "ext st st \<and> k st = Some x" by (simp add: ext_refl)
  then show ?case by (rule exI)
next
  case Eol_multiline
  obtain b s g where st: "st = (b, s, g)" by (cases st)
  then have "k st = Some x" using Eol_multiline by (simp split: if_splits)
  then have "ext st st \<and> k st = Some x" by (simp add: ext_refl)
  then show ?case by (rule exI)
next
  case (Group i r)
  obtain b s g where st: "st = (b, s, g)" by (cases st)
  define k' where "k' = (\<lambda>(b', s', g'). k (b', s', (i, take (length s - length s') s) # g'))"
  have "rmatch r k' st = Some x" using Group.prems st by (simp add: k'_def)
  from Group.IH[OF this] obtain st' where e: "ext st st'" and k: "k' st' = Some x"
    by (elim exE conjE)
  obtain b' s' g' where st': "st' = (b', s', g')" by (cases st')
  have "ext st (b', s', (i, take (length s - length s') s) # g')"
    using e st' by (simp add: ext_def)
  moreover have "k (b', s', (i, take (length s - length s') s) # g') = Some x"
    using k st' by (simp add: k'_def)
  ultimately show ?case by (intro exI[of _ "(b', s', (i, take (length s - length s') s) # g')"] conjI)
next
  case (Opt r)
  show ?case
  proof (cases "rmatch r k st")
    case None
    then have "k st = Some x" using Opt.prems by simp
    then have "ext st st \<and> k st = Some x" by (simp add: ext_refl)
    then show ?thesis by (rule exI)
  next
    case (Some y)
    then have "rmatch r k st = Some x" using Opt.prems by simp
    then show ?thesis by (rule Opt.IH)
  qed
next
  case (Cat r1 r2)
  then have "rmatch r1 (rmatch r2 k) st = Some x" by simp
  from Cat.IH(1)[OF this] obtain st1 where 1: "ext st st1" "rmatch r2 k st1 = Some x"
    by (elim exE conjE)
  from Cat.IH(2)[OF 1(2)] obtain st2 where 2: "ext st1 st2" "k st2 = Some x"
    by (elim exE conjE)
  have "ext st st2" using 1(1) 2(1) by (rule ext_trans)
  then show ?case using 2(2) by (intro exI[of _ st2] conjI)
qed

lemma accept_Some: "accept adv s st' = Some e \<Longrightarrow> e = st' \<and> (adv \<longrightarrow> length (fst (snd st')) \<noteq> length s)"
  by (cases st') (auto split: if_splits)

lemma rmatch_accept_span:
  assumes "rmatch r (accept adv s) (b, s, []) = Some (b1, s1, g)"
  shows "\<exists>v. s = v @ s1 \<and> b1 = rev v @ b \<and> (adv \<longrightarrow> length s1 < length s)"
proof -
  from rmatch_ext[OF assms] obtain st' where e: "ext (b, s, []) st'"
    and a: "accept adv s st' = Some (b1, s1, g)" by (elim exE conjE)
  from accept_Some[OF a] have st': "st' = (b1, s1, g)" and adv: "adv \<longrightarrow> length s1 \<noteq> length s"
    by auto
  from e st' obtain v where v: "s = v @ s1" "b1 = rev v @ b" by (auto simp: ext_def)
  then have "length s1 \<le> length s" by simp
  then show ?thesis using v adv by auto
qed

lemma search_span:
  "search r adv b s = Some (Match b0 s0 (b1, s1, g)) \<Longrightarrow>
   \<exists>u v. s = u @ s0 \<and> s0 = v @ s1 \<and> b0 = rev u @ b \<and> b1 = rev v @ b0
     \<and> (adv \<longrightarrow> length s1 < length s)"
proof (induction r adv b s rule: search.induct)
  case (1 r adv b)
  then have e: "rmatch r (accept adv []) (b, [], []) = Some (b1, s1, g)" "b0 = b" "s0 = []"
    by (auto split: option.splits)
  from rmatch_accept_span[OF e(1)] show ?case using e(2,3) by auto
next
  case (2 r adv b c cs)
  show ?case
  proof (cases "rmatch r (accept adv (c # cs)) (b, c # cs, [])")
    case None
    then have "search r False (c # b) cs = Some (Match b0 s0 (b1, s1, g))"
      using 2(2) by simp
    from 2(1)[OF None this] obtain u v where
      uv: "cs = u @ s0" "s0 = v @ s1" "b0 = rev u @ c # b" "b1 = rev v @ b0" by blast
    have "c # cs = (c # u) @ s0 \<and> s0 = v @ s1 \<and> b0 = rev (c # u) @ b \<and> b1 = rev v @ b0
        \<and> (adv \<longrightarrow> length s1 < length (c # cs))"
      using uv by auto
    then show ?thesis by blast
  next
    case (Some e)
    then have e: "b0 = b" "s0 = c # cs" "e = (b1, s1, g)" using 2(2) by auto
    have "rmatch r (accept adv (c # cs)) (b, c # cs, []) = Some (b1, s1, g)"
      using Some e by simp
    from rmatch_accept_span[OF this]
    obtain v where v: "c # cs = v @ s1" "b1 = rev v @ b" "adv \<longrightarrow> length s1 < length (c # cs)"
      by blast
    have "c # cs = [] @ s0 \<and> s0 = v @ s1 \<and> b0 = rev [] @ b \<and> b1 = rev v @ b0
        \<and> (adv \<longrightarrow> length s1 < length (c # cs))"
      using e v by simp
    then show ?thesis by blast
  qed
qed

lemma search_lengths:
  assumes "search r adv b s = Some (Match b0 s0 (b1, s1, g))"
  shows "length s1 \<le> length s0" "length s0 \<le> length s" "adv \<Longrightarrow> length s1 < length s"
proof -
  from search_span[OF assms] obtain u v where
    uv: "s = u @ s0" "s0 = v @ s1" "adv \<longrightarrow> length s1 < length s" by blast
  show "length s1 \<le> length s0" using uv(2) by simp
  show "length s0 \<le> length s" using uv(1) by simp
  show "adv \<Longrightarrow> length s1 < length s" using uv(3) by simp
qed

subsection \<open>Substitution\<close>

text \<open>
  The loop of \<open>re.sub\<close> (\<open>pattern_subx\<close> in CPython's \<open>_sre.c\<close>): search from the end of the
  previous match, at most \<open>count\<close> times when \<open>count\<close> is not \<open>0\<close>; keep the text between
  the matches; after an empty match the next search has to advance.  The result is the
  list of the kept texts and the matches, in order.
\<close>

datatype piece = Text string | Hit rmatch_obj

function sub_pieces :: "re \<Rightarrow> nat \<Rightarrow> nat \<Rightarrow> bool \<Rightarrow> string \<Rightarrow> string \<Rightarrow> piece list" where
  "sub_pieces r count n must_advance b s =
     (if count = 0 \<or> n < count then
        (case search r must_advance b s of
           None \<Rightarrow> [Text s]
         | Some (Match b0 s0 (b1, s1, g)) \<Rightarrow>
             Text (take (length s - length s0) s) # Hit (Match b0 s0 (b1, s1, g))
               # sub_pieces r count (n + 1) (length s1 = length s0) b1 s1)
      else [Text s])"
  by pat_completeness auto
termination
proof (relation "measure (\<lambda>(r, count, n, adv, b, s). 2 * length s + (if adv then 0 else 1))", goal_cases)
  case 1
  then show ?case by simp
next
  case (2 r count n adv b s m b0 s0 e b1 t s1 g)
  then have "search r adv b s = Some (Match b0 s0 (b1, s1, g))" by simp
  from search_lengths[OF this]
  have l: "length s1 \<le> length s0" "length s0 \<le> length s"
    and a: "adv \<longrightarrow> length s1 < length s"
    by auto
  have "2 * length s1 + (if length s1 = length s0 then 0 else 1)
      < 2 * length s + (if adv then 0 else (1::nat))"
    using l a by (simp split: if_splits) arith
  then show ?case by simp
qed

declare sub_pieces.simps [simp del]

text \<open>\<open>re.sub(pattern, repl, text, count)\<close> with a function \<open>repl\<close> that cannot raise.\<close>

fun piece_text :: "(rmatch_obj \<Rightarrow> string) \<Rightarrow> piece \<Rightarrow> string" where
  "piece_text f (Text t) = t"
| "piece_text f (Hit m) = f m"

definition re_sub :: "re \<Rightarrow> (rmatch_obj \<Rightarrow> string) \<Rightarrow> string \<Rightarrow> nat \<Rightarrow> string" where
  "re_sub r f s count = concat (map (piece_text f) (sub_pieces r count 0 False [] s))"

text \<open>The same with a function that may raise: the first exception, in the order of the
  matches, ends the substitution.\<close>

fun join_pieces :: "(rmatch_obj \<Rightarrow> exn + string) \<Rightarrow> piece list \<Rightarrow> exn + string" where
  "join_pieces f [] = Inr []"
| "join_pieces f (Text t # ps) =
     (case join_pieces f ps of Inl e \<Rightarrow> Inl e | Inr rest \<Rightarrow> Inr (t @ rest))"
| "join_pieces f (Hit m # ps) =
     (case f m of
        Inl e \<Rightarrow> Inl e
      | Inr x \<Rightarrow> (case join_pieces f ps of Inl e \<Rightarrow> Inl e | Inr rest \<Rightarrow> Inr (x @ rest)))"

definition re_sub_raising ::
  "re \<Rightarrow> (rmatch_obj \<Rightarrow> exn + string) \<Rightarrow> string \<Rightarrow> nat \<Rightarrow> exn + string" where
  "re_sub_raising r f s count = join_pieces f (sub_pieces r count 0 False [] s)"

subsection \<open>Replacement templates\<close>

text \<open>
  A replacement given as a string is a template: \<open>re._parser.parse_template\<close> reads its
  backslash escapes (group references, octal escapes, the escapes of control characters)
  before any match is looked for, and raises \<open>re.error\<close> on an escape it does not know.
  The messages of these exceptions are kept without their position.
\<close>

abbreviation backslash :: char where "backslash \<equiv> CHR 0x5C"

definition re_error :: "string \<Rightarrow> exn" where
  "re_error msg = Exn ''re.error'' msg"

definition bad_escape_end :: exn where
  "bad_escape_end = re_error ''bad escape (end of pattern)''"

definition is_digit :: "char \<Rightarrow> bool" where
  "is_digit c \<longleftrightarrow> 48 \<le> (of_char c :: nat) \<and> (of_char c :: nat) \<le> 57"

definition is_octdigit :: "char \<Rightarrow> bool" where
  "is_octdigit c \<longleftrightarrow> 48 \<le> (of_char c :: nat) \<and> (of_char c :: nat) \<le> 55"

definition is_ascii_upper :: "char \<Rightarrow> bool" where
  "is_ascii_upper c \<longleftrightarrow> 65 \<le> (of_char c :: nat) \<and> (of_char c :: nat) \<le> 90"

definition is_ascii_lower :: "char \<Rightarrow> bool" where
  "is_ascii_lower c \<longleftrightarrow> 97 \<le> (of_char c :: nat) \<and> (of_char c :: nat) \<le> 122"

definition is_ascii_letter :: "char \<Rightarrow> bool" where
  "is_ascii_letter c \<longleftrightarrow> is_ascii_upper c \<or> is_ascii_lower c"

definition digit_val :: "char \<Rightarrow> nat" where
  "digit_val c = of_char c - 48"

text \<open>\<open>int(s)\<close> and \<open>int(s, 8)\<close> on a string of digits.\<close>

definition int_of_digits :: "nat \<Rightarrow> string \<Rightarrow> nat" where
  "int_of_digits base s = foldl (\<lambda>acc c. base * acc + digit_val c) 0 s"

text \<open>\<open>str.isidentifier\<close> on code points below 256.\<close>

definition xid_start :: "char \<Rightarrow> bool" where
  "xid_start c \<longleftrightarrow>
     (let n = (of_char c :: nat) in
      is_ascii_letter c \<or> n = 0xAA \<or> n = 0xB5 \<or> n = 0xBA
        \<or> (0xC0 \<le> n \<and> n \<le> 0xD6) \<or> (0xD8 \<le> n \<and> n \<le> 0xF6) \<or> 0xF8 \<le> n)"

definition is_identifier :: "string \<Rightarrow> bool" where
  "is_identifier s \<longleftrightarrow>
     (case s of
        [] \<Rightarrow> False
      | c # cs \<Rightarrow> (xid_start c \<or> c = CHR ''_'')
          \<and> (\<forall>d \<in> set cs. xid_start d \<or> d = CHR ''_'' \<or> is_digit d \<or> d = CHR 0xB7))"

datatype titem = TLit string | TGroup nat

text \<open>
  The tokenizer reads one token ahead, a token being one character or a backslash with the
  character after it; a backslash that ends the template cannot be read and raises.  So
  whenever text is consumed, the rest must not be a lone backslash.
\<close>

definition unreadable :: "string \<Rightarrow> bool" where
  "unreadable rest \<longleftrightarrow> rest = [backslash]"

text \<open>\<open>Tokenizer.getuntil(">", "group name")\<close>: the tokens before the first token \<open>>\<close>,
  and the rest after it.\<close>

fun getuntil :: "string \<Rightarrow> string \<Rightarrow> exn + (string \<times> string)" where
  "getuntil acc [] =
     Inl (re_error (if acc = [] then ''missing group name''
                    else ''missing >, unterminated name''))"
| "getuntil acc [c] =
     (if c = backslash then Inl bad_escape_end
      else if c = CHR ''>''
      then (if acc = [] then Inl (re_error ''missing group name'') else Inr (acc, []))
      else getuntil (acc @ [c]) [])"
| "getuntil acc (c # d # ds) =
     (if c = backslash
      then (if unreadable ds then Inl bad_escape_end else getuntil (acc @ [c, d]) ds)
      else if unreadable (d # ds) then Inl bad_escape_end
      else if c = CHR ''>''
      then (if acc = [] then Inl (re_error ''missing group name'') else Inr (acc, d # ds))
      else getuntil (acc @ [c]) (d # ds))"

lemma getuntil_shorter: "getuntil acc s = Inr (name, rest) \<Longrightarrow> length rest < length s"
  by (induction acc s rule: getuntil.induct) (auto split: if_splits)

text \<open>\<open>addgroup\<close>: a reference to group \<open>index\<close> of a pattern with \<open>groups\<close> groups.\<close>

definition addgroup :: "nat \<Rightarrow> nat \<Rightarrow> exn + titem list \<Rightarrow> exn + titem list" where
  "addgroup groups index rest =
     (if index > groups then Inl (re_error ''invalid group reference'')
      else (case rest of Inl e \<Rightarrow> Inl e | Inr items \<Rightarrow> Inr (TGroup index # items)))"

definition lappend :: "string \<Rightarrow> exn + titem list \<Rightarrow> exn + titem list" where
  "lappend t rest = (case rest of Inl e \<Rightarrow> Inl e | Inr items \<Rightarrow> Inr (TLit t # items))"

text \<open>The escapes of \<open>re._parser.ESCAPES\<close>.\<close>

definition escapes :: "char \<Rightarrow> char option" where
  "escapes c =
     (if c = CHR ''a'' then Some (CHR 0x07)
      else if c = CHR ''b'' then Some (CHR 0x08)
      else if c = CHR ''f'' then Some (CHR 0x0C)
      else if c = CHR ''n'' then Some (CHR 0x0A)
      else if c = CHR ''r'' then Some (CHR 0x0D)
      else if c = CHR ''t'' then Some (CHR 0x09)
      else if c = CHR ''v'' then Some (CHR 0x0B)
      else if c = backslash then Some backslash
      else None)"

text \<open>
  \<open>parse_template\<close> for a pattern with \<open>groups\<close> groups, none of them named (the program
  uses templates with such patterns only).  The argument is the text from the current
  token on.
\<close>

function parse_template :: "nat \<Rightarrow> string \<Rightarrow> exn + titem list" where
  "parse_template groups [] = Inr []"
| "parse_template groups [c] =
     (if c = backslash then Inl bad_escape_end else lappend [c] (Inr []))"
| "parse_template groups (c # d # ds) =
     (if c \<noteq> backslash then
        (if unreadable (d # ds) then Inl bad_escape_end
         else lappend [c] (parse_template groups (d # ds)))
      else if unreadable ds then Inl bad_escape_end
      else if d = CHR ''g'' then
        (case ds of
           [] \<Rightarrow> Inl (re_error ''missing <'')
         | e # es \<Rightarrow>
             if e \<noteq> CHR ''<'' then Inl (re_error ''missing <'')
             else if unreadable es then Inl bad_escape_end
             else (case getuntil [] es of
                     Inl err \<Rightarrow> Inl err
                   | Inr (name, rest) \<Rightarrow>
                       if list_all is_digit name
                       then addgroup groups (int_of_digits 10 name) (parse_template groups rest)
                       else if is_identifier name
                       then Inl (Exn ''IndexError'' (''unknown group name '' @ name))
                       else Inl (re_error (''bad character in group name '' @ name))))
      else if d = CHR ''0'' then
        (case ds of
           e # es \<Rightarrow>
             if is_octdigit e then
               (if unreadable es then Inl bad_escape_end
                else (case es of
                        f # fs \<Rightarrow>
                          if is_octdigit f then
                            (if unreadable fs then Inl bad_escape_end
                             else lappend [char_of (int_of_digits 8 [e, f] mod 256)]
                                    (parse_template groups fs))
                          else lappend [char_of (int_of_digits 8 [e] mod 256)]
                                 (parse_template groups es)
                      | [] \<Rightarrow> lappend [char_of (int_of_digits 8 [e] mod 256)] (Inr [])))
             else lappend [CHR 0x00] (parse_template groups ds)
         | [] \<Rightarrow> lappend [CHR 0x00] (Inr []))
      else if is_digit d then
        (case ds of
           e # es \<Rightarrow>
             if is_digit e then
               (if unreadable es then Inl bad_escape_end
                else (case es of
                        f # fs \<Rightarrow>
                          if is_octdigit d \<and> is_octdigit e \<and> is_octdigit f then
                            (if unreadable fs then Inl bad_escape_end
                             else if int_of_digits 8 [d, e, f] > 255
                             then Inl (re_error ''octal escape value outside of range 0-0o377'')
                             else lappend [char_of (int_of_digits 8 [d, e, f])]
                                    (parse_template groups fs))
                          else addgroup groups (int_of_digits 10 [d, e])
                                 (parse_template groups es)
                      | [] \<Rightarrow> addgroup groups (int_of_digits 10 [d, e]) (Inr [])))
             else addgroup groups (digit_val d) (parse_template groups ds)
         | [] \<Rightarrow> addgroup groups (digit_val d) (Inr []))
      else
        (case escapes d of
           Some x \<Rightarrow> lappend [x] (parse_template groups ds)
         | None \<Rightarrow>
             if is_ascii_letter d then Inl (re_error (''bad escape '' @ [c, d]))
             else lappend [c, d] (parse_template groups ds)))"
  by pat_completeness auto
termination
  by (relation "measure (\<lambda>(groups, s). length s)") (auto dest: getuntil_shorter)

declare parse_template.simps [simp del]

text \<open>The text a template stands for at a match; a group that took no part in the match
  gives the empty string.\<close>

fun expand_item :: "rmatch_obj \<Rightarrow> titem \<Rightarrow> string" where
  "expand_item m (TLit t) = t"
| "expand_item m (TGroup i) = (case group m i of None \<Rightarrow> [] | Some t \<Rightarrow> t)"

definition expand_template :: "titem list \<Rightarrow> rmatch_obj \<Rightarrow> string" where
  "expand_template items m = concat (map (expand_item m) items)"

text \<open>\<open>re.sub(pattern, repl, text, count)\<close> with a string \<open>repl\<close>.\<close>

definition re_sub_template :: "re \<Rightarrow> string \<Rightarrow> string \<Rightarrow> nat \<Rightarrow> exn + string" where
  "re_sub_template r repl s count =
     (case parse_template (ngroups r) repl of
        Inl e \<Rightarrow> Inl e
      | Inr items \<Rightarrow> Inr (re_sub r (expand_template items) s count))"

section \<open>The text preprocessor\<close>

text \<open>\<open>str.lower\<close> on one code point below 256.\<close>

definition lower_char :: "char \<Rightarrow> char" where
  "lower_char c =
     (let n = (of_char c :: nat) in
      if (65 \<le> n \<and> n \<le> 90) \<or> (0xC0 \<le> n \<and> n \<le> 0xDE \<and> n \<noteq> 0xD7)
      then char_of (n + 32) else c)"

definition lower :: "string \<Rightarrow> string" where
  "lower s = map lower_char s"

text \<open>\<open>text.replace("\r\n", "\n")\<close>: the occurrences from left to right, not
  overlapping; and \<open>text.replace("\r", "\n")\<close>.\<close>

fun replace_crlf :: "string \<Rightarrow> string" where
  "replace_crlf (c # d # cs) =
     (if c = carriage_return \<and> d = newline then newline # replace_crlf cs
      else c # replace_crlf (d # cs))"
| "replace_crlf cs = cs"

definition replace_cr :: "string \<Rightarrow> string" where
  "replace_cr s = map (\<lambda>c. if c = carriage_return then newline else c) s"

text \<open>The classes \<open>[ \t]\<close> and \<open>.\<close> (without \<open>DOTALL\<close>).\<close>

definition space_or_tab :: "char \<Rightarrow> bool" where
  "space_or_tab c \<longleftrightarrow> c = CHR '' '' \<or> c = CHR 0x09"

definition not_newline :: "char \<Rightarrow> bool" where
  "not_newline c \<longleftrightarrow> c \<noteq> newline"

text \<open>
  \<open>^[ \t]*>[ \t]*\[\!(?P<type>[A-Za-z]+)\][ \t]*(?P<title>.*)?$\<close> with \<open>re.MULTILINE\<close>;
  group 1 is \<open>type\<close> and group 2 is \<open>title\<close>.
\<close>

definition callout_re :: re where
  "callout_re =
     seq [Bol_multiline, Star space_or_tab, Lit ''>'', Star space_or_tab, Lit ''[!'',
          Group 1 (Plus is_ascii_letter), Lit '']'', Star space_or_tab,
          Opt (Group 2 (Star not_newline)), Eol_multiline]"

text \<open>\<open>match.group(i) or ""\<close>.\<close>

definition group_or_empty :: "rmatch_obj \<Rightarrow> nat \<Rightarrow> string" where
  "group_or_empty m i = (case group m i of None \<Rightarrow> [] | Some t \<Rightarrow> t)"

definition repl_callout :: "rmatch_obj \<Rightarrow> string" where
  "repl_callout m =
     (let t = lower (group_or_empty m 1);
          title = strip (group_or_empty m 2)
      in if title \<noteq> [] then ''> <!--callout:'' @ t @ '' title=\"'' @ title @ ''\"-->''
         else ''> <!--callout:'' @ t @ ''-->'')"

definition preprocess_obsidian :: "string \<Rightarrow> string" where
  "preprocess_obsidian text = re_sub callout_re repl_callout (replace_cr (replace_crlf text)) 0"

section \<open>The callout post-processor\<close>

text \<open>\<open><blockquote>(.*?)</blockquote>\<close> with \<open>re.DOTALL\<close>.\<close>

definition blockquote_re :: re where
  "blockquote_re = seq [Lit ''<blockquote>'', Group 1 (Lazy (\<lambda>c. True)), Lit ''</blockquote>'']"

text \<open>\<open><!--\s*callout:([a-z]+)(?:\s+title=\"([^\"]*)\")?\s*-->\<close>.\<close>

definition marker_re :: re where
  "marker_re =
     seq [Lit ''<!--'', Star is_space, Lit ''callout:'', Group 1 (Plus is_ascii_lower),
          Opt (seq [Plus is_space, Lit ''title=\"'', Group 2 (Star (\<lambda>c. c \<noteq> CHR 0x22)),
                    Lit ''\"'']),
          Star is_space, Lit ''-->'']"

text \<open>\<open><!--\s*callout:[^>]*-->\s*\<close>.\<close>

definition marker_strip_re :: re where
  "marker_strip_re =
     seq [Lit ''<!--'', Star is_space, Lit ''callout:'', Star (\<lambda>c. c \<noteq> CHR ''>''),
          Lit ''-->'', Star is_space]"

text \<open>\<open>^(<p[^>]*>)\<close>, without \<open>re.MULTILINE\<close>.\<close>

definition first_p_re :: re where
  "first_p_re = seq [Bol_string, Group 1 (seq [Lit ''<p'', Star (\<lambda>c. c \<noteq> CHR ''>''), Lit ''>''])]"

definition badge :: "string \<Rightarrow> string \<Rightarrow> string" where
  "badge ctype ctitle =
     (if ctitle \<noteq> [] then ''<span data-callout=\"'' @ ctype @ ''\">'' @ ctitle @ ''</span>''
      else ''<span data-callout=\"'' @ ctype @ ''\"></span>'')"

text \<open>
  The function \<open>repl\<close> of \<open>transform_callouts\<close>, called with each match \<open>m\<close> of
  \<open>blockquote_re\<close>.  Group 1 of such a match, and group 1 of a match of \<open>marker_re\<close>, always
  take part in the match; the branches for \<open>None\<close> are what Python does with \<open>None\<close> there.
\<close>

definition repl :: "rmatch_obj \<Rightarrow> exn + string" where
  "repl m =
     (case group m 1 of
        None \<Rightarrow> Inl (Exn ''TypeError'' ''expected string or bytes-like object'')
      | Some inner \<Rightarrow>
          (case re_search marker_re inner of
             None \<Rightarrow> Inr (group_or_empty m 0)
           | Some cm \<Rightarrow>
               (let ctype = (case group cm 1 of None \<Rightarrow> ''None'' | Some t \<Rightarrow> t);
                    ctitle = group_or_empty cm 2;
                    bdg = badge ctype ctitle
                in case re_sub_template marker_strip_re [] inner 1 of
                     Inl e \<Rightarrow> Inl e
                   | Inr inner2 \<Rightarrow>
                       (case re_sub_template first_p_re ([backslash, CHR ''1''] @ bdg @ '' '')
                               inner2 1 of
                          Inl e \<Rightarrow> Inl e
                        | Inr inner2_new \<Rightarrow>
                            Inr (''<blockquote>''
                                 @ (if inner2_new = inner2 then bdg @ inner2 else inner2_new)
                                 @ ''</blockquote>'')))))"

definition transform_callouts :: "string \<Rightarrow> exn + string" where
  "transform_callouts html = re_sub_raising blockquote_re repl html 0"

section \<open>Document assembly and the batch runner\<close>

text \<open>
  What lies outside the program: the file system, the Markdown converter, the renderer and
  the style sheets.  Reading, converting and rendering may raise, and they may change the
  world (a value of the type \<open>'w\<close>).  \<open>html_page theme font title body\<close> is the document
  that the f-string at the end of \<open>wrap_html_document\<close> builds around the body.
\<close>

record 'w env =
  load_text :: "path \<Rightarrow> 'w \<Rightarrow> (exn + string) \<times> 'w"
  build_markdown_html :: "string \<Rightarrow> 'w \<Rightarrow> (exn + string) \<times> 'w"
  render_pdf :: "string \<Rightarrow> path \<Rightarrow> path \<Rightarrow> 'w \<Rightarrow> (exn + unit) \<times> 'w"
  html_page :: "string \<Rightarrow> string \<Rightarrow> string \<Rightarrow> string \<Rightarrow> string"

definition wrap_html_document ::
  "'w env \<Rightarrow> string \<Rightarrow> string \<Rightarrow> string \<Rightarrow> string \<Rightarrow> exn + string" where
  "wrap_html_document env body_html theme_name font title =
     (case transform_callouts body_html of
        Inl e \<Rightarrow> Inl e
      | Inr body_with_callouts \<Rightarrow> Inr (html_page env theme_name font title body_with_callouts))"

text \<open>\<open>ConvertTask.convert_one\<close>.\<close>

definition convert_one ::
  "'w env \<Rightarrow> task \<Rightarrow> path \<Rightarrow> 'w \<Rightarrow> (exn + string \<times> path) \<times> 'w" where
  "convert_one env t md_path w =
     (case load_text env md_path w of
        (Inl e, w1) \<Rightarrow> (Inl e, w1)
      | (Inr text, w1) \<Rightarrow>
          (case build_markdown_html env (preprocess_obsidian text) w1 of
             (Inl e, w2) \<Rightarrow> (Inl e, w2)
           | (Inr body_html, w2) \<Rightarrow>
               (case wrap_html_document env body_html (theme t) (font_family t)
                       (path_stem md_path) of
                  Inl e \<Rightarrow> (Inl e, w2)
                | Inr full_html \<Rightarrow> (Inr (full_html, compute_out_path t md_path), w2))))"

text \<open>
  The signals of \<open>WorkerSignals\<close> that \<open>run\<close> emits.  The three log lines are Cyrillic
  f-strings; each is represented by a constructor that holds what the f-string inserts.
\<close>

type_synonym outcome = "string \<times> string \<times> bool \<times> string"

datatype log_line = Converting path | Ready path | Failed path string

datatype signal = Progress nat nat | Message log_line | Done "outcome list"

text \<open>What \<open>run\<close> does, in order: the signals it emits and the documents it hands to
  \<open>convert_one\<close>.\<close>

datatype event = Emit signal | Process path

text \<open>\<open>traceback.format_exception_only(type(e), e)\<close> for an exception without notes that
  is not a \<open>SyntaxError\<close>, and the error text that \<open>run\<close> makes of it.\<close>

definition format_exception_only :: "exn \<Rightarrow> string list" where
  "format_exception_only e =
     [if exc_msg e = [] then exc_type e @ [newline]
      else exc_type e @ '': '' @ exc_msg e @ [newline]]"

definition error_text :: "exn \<Rightarrow> string" where
  "error_text e = strip (concat (format_exception_only e))"

text \<open>
  The statements of the \<open>try\<close> block of \<open>run\<close> that may raise, for one document:
  \<open>convert_one\<close>, then \<open>render_pdf\<close> with the parent directory of the source as base.
\<close>

definition try_block :: "'w env \<Rightarrow> task \<Rightarrow> path \<Rightarrow> 'w \<Rightarrow> (exn + path) \<times> 'w" where
  "try_block env t md_path w =
     (case convert_one env t md_path w of
        (Inl e, w1) \<Rightarrow> (Inl e, w1)
      | (Inr (html, output_pdf), w1) \<Rightarrow>
          (case render_pdf env html (path_parent md_path) output_pdf w1 of
             (Inl e, w2) \<Rightarrow> (Inl e, w2)
           | (Inr u, w2) \<Rightarrow> (Inr output_pdf, w2)))"

text \<open>
  The loop of \<open>ConvertTask.run\<close> from document number \<open>i\<close> on, with the results and the
  events so far.  The \<open>except Exception\<close> clause takes every exception of the \<open>try\<close> block.
\<close>

fun run_loop ::
  "'w env \<Rightarrow> task \<Rightarrow> nat \<Rightarrow> nat \<Rightarrow> path list \<Rightarrow> outcome list \<Rightarrow> event list \<Rightarrow> 'w
     \<Rightarrow> outcome list \<times> event list \<times> 'w" where
  "run_loop env t total_n i [] results events w = (results, events, w)"
| "run_loop env t total_n i (md_path # rest) results events w =
     (let started = events @ [Emit (Progress i total_n), Emit (Message (Converting md_path)),
                              Process md_path]
      in case try_block env t md_path w of
           (Inr output_pdf, w1) \<Rightarrow>
             run_loop env t total_n (i + 1) rest
               (results @ [(path_str md_path, path_str output_pdf, True, [])])
               (started @ [Emit (Message (Ready output_pdf))]) w1
         | (Inl e, w1) \<Rightarrow>
             run_loop env t total_n (i + 1) rest
               (results @ [(path_str md_path, [], False, error_text e)])
               (started @ [Emit (Message (Failed md_path (error_text e)))]) w1)"

text \<open>\<open>ConvertTask.run\<close>: the events, the last of which emits the results, and the world
  it leaves.\<close>

definition run :: "'w env \<Rightarrow> task \<Rightarrow> 'w \<Rightarrow> event list \<times> 'w" where
  "run env t w =
     (case run_loop env t (length (files t)) 1 (files t) [] [] w of
        (results, events, w') \<Rightarrow> (events @ [Emit (Done results)], w'))"

subsection \<open>The outcomes of a batch\<close>

text \<open>The outcome that \<open>run\<close> records for a document, from what the \<open>try\<close> block gave.\<close>

definition outcome_of :: "path \<Rightarrow> exn + path \<Rightarrow> outcome" where
  "outcome_of md_path r =
     (case r of
        Inr output_pdf \<Rightarrow> (path_str md_path, path_str output_pdf, True, [])
      | Inl e \<Rightarrow> (path_str md_path, [], False, error_text e))"

definition message_of :: "path \<Rightarrow> exn + path \<Rightarrow> log_line" where
  "message_of md_path r =
     (case r of Inr output_pdf \<Rightarrow> Ready output_pdf | Inl e \<Rightarrow> Failed md_path (error_text e))"

text \<open>The events of document number \<open>i\<close> of \<open>total_n\<close>.\<close>

definition chunk :: "nat \<Rightarrow> nat \<Rightarrow> path \<Rightarrow> log_line \<Rightarrow> event list" where
  "chunk total_n i md_path msg =
     [Emit (Progress i total_n), Emit (Message (Converting md_path)), Process md_path,
      Emit (Message msg)]"

text \<open>The world in which document \<open>i\<close> (counted from 0) is processed.\<close>

definition world_before :: "'w env \<Rightarrow> task \<Rightarrow> 'w \<Rightarrow> nat \<Rightarrow> 'w" where
  "world_before env t w i =
     snd (snd (run_loop env t (length (files t)) 1 (take i (files t)) [] [] w))"

lemma run_loop_step:
  "run_loop env t total_n i (p # rest) results events w =
     run_loop env t total_n (Suc i) rest
       (results @ [outcome_of p (fst (try_block env t p w))])
       (events @ chunk total_n i p (message_of p (fst (try_block env t p w))))
       (snd (try_block env t p w))"
  by (cases "try_block env t p w"; cases "fst (try_block env t p w)")
     (simp_all add: outcome_of_def message_of_def chunk_def)

declare run_loop.simps(2) [simp del]

lemma run_loop_append:
  "run_loop env t total_n i (xs @ ys) results events w =
     (case run_loop env t total_n i xs results events w of
        (results', events', w') \<Rightarrow> run_loop env t total_n (i + length xs) ys results' events' w')"
proof (induction xs arbitrary: i results events w)
  case Nil
  then show ?case by simp
next
  case (Cons p xs)
  show ?case
    unfolding append_Cons run_loop_step Cons.IH by simp
qed

lemma run_loop_acc:
  "run_loop env t total_n i ps results events w =
     (case run_loop env t total_n i ps [] [] w of
        (rs, es, w') \<Rightarrow> (results @ rs, events @ es, w'))"
proof (induction ps arbitrary: i results events w)
  case Nil
  then show ?case by simp
next
  case (Cons p ps)
  show ?case
    unfolding run_loop_step
    by (subst Cons.IH, subst (2) Cons.IH) (simp split: prod.splits)
qed


lemma run_loop_snoc:
  "run_loop env t total_n i (xs @ [p]) [] [] w =
     (case run_loop env t total_n i xs [] [] w of
        (rs, es, w1) \<Rightarrow>
          (rs @ [outcome_of p (fst (try_block env t p w1))],
           es @ chunk total_n (i + length xs) p (message_of p (fst (try_block env t p w1))),
           snd (try_block env t p w1)))"
  unfolding run_loop_append by (simp add: run_loop_step split: prod.splits)

text \<open>What the \<open>try\<close> block gives for document \<open>j\<close> of \<open>ps\<close>, in the world that the documents
  before it have left.\<close>

definition result_at ::
  "'w env \<Rightarrow> task \<Rightarrow> nat \<Rightarrow> nat \<Rightarrow> path list \<Rightarrow> 'w \<Rightarrow> nat \<Rightarrow> exn + path" where
  "result_at env t total_n i ps w j =
     fst (try_block env t (ps ! j) (snd (snd (run_loop env t total_n i (take j ps) [] [] w))))"

lemma result_at_prefix:
  "j < length xs \<Longrightarrow> result_at env t total_n i (xs @ ys) w j = result_at env t total_n i xs w j"
  by (simp add: result_at_def nth_append)

lemma result_at_last:
  "result_at env t total_n i (xs @ [p]) w (length xs) =
     fst (try_block env t p (snd (snd (run_loop env t total_n i xs [] [] w))))"
  by (simp add: result_at_def)

lemma run_loop_closed:
  "run_loop env t total_n i ps [] [] w = (rs, es, w') \<Longrightarrow>
     rs = map (\<lambda>j. outcome_of (ps ! j) (result_at env t total_n i ps w j)) [0..<length ps]
   \<and> es = concat (map (\<lambda>j. chunk total_n (i + j) (ps ! j)
                          (message_of (ps ! j) (result_at env t total_n i ps w j)))
                    [0..<length ps])"
proof (induction ps arbitrary: rs es w' rule: rev_induct)
  case Nil
  then show ?case by simp
next
  case (snoc p xs)
  obtain rs0 es0 w0 where r0: "run_loop env t total_n i xs [] [] w = (rs0, es0, w0)"
    by (cases "run_loop env t total_n i xs [] [] w") auto
  note IH = snoc.IH[OF r0]
  have w0: "snd (snd (run_loop env t total_n i xs [] [] w)) = w0" using r0 by simp
  have rs: "rs = rs0 @ [outcome_of p (fst (try_block env t p w0))]"
    and es: "es = es0 @ chunk total_n (i + length xs) p (message_of p (fst (try_block env t p w0)))"
    using snoc.prems r0 unfolding run_loop_snoc by simp_all
  have last: "result_at env t total_n i (xs @ [p]) w (length xs) = fst (try_block env t p w0)"
    using w0 by (simp add: result_at_last)
  have m1: "map (\<lambda>j. outcome_of ((xs @ [p]) ! j) (result_at env t total_n i (xs @ [p]) w j))
              [0..<length xs]
          = map (\<lambda>j. outcome_of (xs ! j) (result_at env t total_n i xs w j)) [0..<length xs]"
    by (rule map_cong) (simp_all add: nth_append result_at_prefix)
  have m2: "map (\<lambda>j. chunk total_n (i + j) ((xs @ [p]) ! j)
                   (message_of ((xs @ [p]) ! j) (result_at env t total_n i (xs @ [p]) w j)))
              [0..<length xs]
          = map (\<lambda>j. chunk total_n (i + j) (xs ! j)
                   (message_of (xs ! j) (result_at env t total_n i xs w j))) [0..<length xs]"
    by (rule map_cong) (simp_all add: nth_append result_at_prefix)
  show ?case
    using IH rs es by (simp add: m1 m2 last)
qed


subsection \<open>Error texts\<close>

text \<open>The name of the class of an exception is an identifier or a dotted name: it is not empty
  and starts with a character that is not white space.\<close>

definition named :: "exn \<Rightarrow> bool" where
  "named e \<longleftrightarrow> (case exc_type e of [] \<Rightarrow> False | c # cs \<Rightarrow> \<not> is_space c)"

definition env_named :: "'w env \<Rightarrow> bool" where
  "env_named env \<longleftrightarrow>
     (\<forall>p w e w'. load_text env p w = (Inl e, w') \<longrightarrow> named e)
   \<and> (\<forall>s w e w'. build_markdown_html env s w = (Inl e, w') \<longrightarrow> named e)
   \<and> (\<forall>h b out w e w'. render_pdf env h b out w = (Inl e, w') \<longrightarrow> named e)"

lemma dropWhile_snoc_nonempty: "\<not> P c \<Longrightarrow> dropWhile P (xs @ [c]) \<noteq> []"
  by (induction xs) auto

lemma strip_nonempty:
  assumes "\<not> is_space c"
  shows "strip (c # cs) \<noteq> []"
proof -
  have l: "lstrip (c # cs) = c # cs" using assms by (simp add: lstrip_def)
  have "dropWhile is_space (rev cs @ [c]) \<noteq> []"
    using assms by (rule dropWhile_snoc_nonempty)
  then show ?thesis by (simp add: strip_def l rstrip_def)
qed

lemma error_text_nonempty: "named e \<Longrightarrow> error_text e \<noteq> []"
  by (cases "exc_type e")
     (simp_all add: named_def error_text_def format_exception_only_def strip_nonempty)

lemma named_re_error [simp]: "named (re_error msg)"
  by (simp add: named_def re_error_def is_space_def)

lemma named_bad_escape_end [simp]: "named bad_escape_end"
  by (simp add: bad_escape_end_def)

lemma getuntil_named: "getuntil acc s = Inl e \<Longrightarrow> named e"
  by (induction acc s rule: getuntil.induct) (auto split: if_splits)

lemma lappend_Inl: "lappend t r = Inl e \<Longrightarrow> r = Inl e"
  by (simp add: lappend_def split: sum.splits)

lemma addgroup_Inl: "addgroup g i r = Inl e \<Longrightarrow> r = Inl e \<or> named e"
  by (auto simp: addgroup_def split: sum.splits if_splits)


lemma named_IndexError [simp]: "named (Exn ''IndexError'' msg)"
  by (simp add: named_def is_space_def)

lemma named_TypeError [simp]: "named (Exn ''TypeError'' msg)"
  by (simp add: named_def is_space_def)

lemma parse_template_named: "parse_template g s = Inl e \<Longrightarrow> named e"
proof (induction g s arbitrary: e rule: parse_template.induct)
  case (1 g)
  then show ?case by (simp add: parse_template.simps)
next
  case (2 g c)
  then show ?case
    by (auto simp: parse_template.simps lappend_def split: if_splits)
next
  case (3 g c d ds)
  from "3.prems" show ?case
    apply (subst (asm) parse_template.simps)
    apply (auto split: if_splits list.splits sum.splits option.splits
        dest!: lappend_Inl addgroup_Inl getuntil_named
        intro: "3.IH")
    done
qed


lemma re_sub_template_named: "re_sub_template r tpl s count = Inl e \<Longrightarrow> named e"
  by (auto simp: re_sub_template_def split: sum.splits dest: parse_template_named)

lemma repl_named: "repl m = Inl e \<Longrightarrow> named e"
  by (auto simp: repl_def Let_def split: option.splits sum.splits dest: re_sub_template_named)

lemma join_pieces_Inl: "join_pieces f ps = Inl e \<Longrightarrow> \<exists>m. f m = Inl e"
proof (induction f ps rule: join_pieces.induct)
  case (1 f)
  then show ?case by simp
next
  case (2 f t ps)
  then show ?case by (simp split: sum.splits)
next
  case (3 f m ps)
  show ?case
  proof (cases "f m")
    case (Inl a)
    then have "f m = Inl e" using 3(2) by simp
    then show ?thesis by (rule exI)
  next
    case (Inr x)
    then have "join_pieces f ps = Inl e" using 3(2) by (simp split: sum.splits)
    then show ?thesis using 3(1) Inr by simp
  qed
qed

lemma transform_callouts_named: "transform_callouts html = Inl e \<Longrightarrow> named e"
proof -
  assume "transform_callouts html = Inl e"
  then have "join_pieces repl (sub_pieces blockquote_re 0 0 False [] html) = Inl e"
    by (simp add: transform_callouts_def re_sub_raising_def)
  from join_pieces_Inl[OF this] obtain m where "repl m = Inl e" by (elim exE)
  then show ?thesis by (rule repl_named)
qed

lemma convert_one_named:
  assumes "env_named env" and "convert_one env t p w = (Inl e, w')"
  shows "named e"
proof (cases "load_text env p w")
  case (Pair r1 w1)
  show ?thesis
  proof (cases r1)
    case (Inl e1)
    then show ?thesis using assms Pair by (auto simp: convert_one_def env_named_def)
  next
    case (Inr src)
    note r1 = this
    obtain r2 w2 where b: "build_markdown_html env (preprocess_obsidian src) w1 = (r2, w2)"
      by (cases "build_markdown_html env (preprocess_obsidian src) w1")
    show ?thesis
    proof (cases r2)
      case (Inl e2)
      then have "e2 = e" using assms(2) Pair r1 b by (simp add: convert_one_def)
      moreover have "named e2" using assms(1) b Inl unfolding env_named_def by blast
      ultimately show ?thesis by simp
    next
      case (Inr body)
      then have "transform_callouts body = Inl e"
        using assms(2) Pair r1 b
        by (simp add: convert_one_def wrap_html_document_def split: sum.splits)
      then show ?thesis by (rule transform_callouts_named)
    qed
  qed
qed

lemma try_block_named:
  assumes "env_named env" and "fst (try_block env t p w) = Inl e"
  shows "named e"
proof (cases "convert_one env t p w")
  case (Pair r1 w1)
  show ?thesis
  proof (cases r1)
    case (Inl e1)
    then have "e1 = e" using assms(2) Pair by (simp add: try_block_def)
    then show ?thesis using convert_one_named[OF assms(1)] Pair Inl by simp
  next
    case (Inr ho)
    obtain html out where ho: "ho = (html, out)" by (cases ho)
    obtain r2 w2 where r: "render_pdf env html (path_parent p) out w1 = (r2, w2)"
      by (cases "render_pdf env html (path_parent p) out w1")
    have "r2 = Inl e" using assms(2) Pair Inr ho r
      by (cases r2) (simp_all add: try_block_def)
    then show ?thesis using assms(1) r unfolding env_named_def by blast
  qed
qed

subsection \<open>The events of a batch\<close>

text \<open>The progress signals and the completion signals among the events, in order.\<close>

fun progress_of :: "event list \<Rightarrow> (nat \<times> nat) list" where
  "progress_of [] = []"
| "progress_of (Emit (Progress i n) # es) = (i, n) # progress_of es"
| "progress_of (e # es) = progress_of es"

fun done_of :: "event list \<Rightarrow> outcome list list" where
  "done_of [] = []"
| "done_of (Emit (Done rs) # es) = rs # done_of es"
| "done_of (e # es) = done_of es"

lemma progress_of_append: "progress_of (xs @ ys) = progress_of xs @ progress_of ys"
  by (induction xs rule: progress_of.induct) simp_all

lemma done_of_append: "done_of (xs @ ys) = done_of xs @ done_of ys"
  by (induction xs rule: done_of.induct) simp_all

lemma progress_of_chunks:
  "progress_of (concat (map (\<lambda>j. chunk n (f j) (p j) (m j)) [0..<k])) = map (\<lambda>j. (f j, n)) [0..<k]"
  by (induction k) (simp_all add: progress_of_append chunk_def)

lemma done_of_chunks:
  "done_of (concat (map (\<lambda>j. chunk n (f j) (p j) (m j)) [0..<k])) = []"
  by (induction k) (simp_all add: done_of_append chunk_def)


lemma run_closed:
  assumes "run env t w = (events, w')"
  shows "\<exists>results.
     events = concat (map (\<lambda>j. chunk (length (files t)) (Suc j) (files t ! j)
                 (message_of (files t ! j) (fst (try_block env t (files t ! j) (world_before env t w j)))))
                 [0..<length (files t)]) @ [Emit (Done results)]
   \<and> results = map (\<lambda>j. outcome_of (files t ! j)
                        (fst (try_block env t (files t ! j) (world_before env t w j))))
                 [0..<length (files t)]"
proof -
  obtain rs es w1 where r: "run_loop env t (length (files t)) 1 (files t) [] [] w = (rs, es, w1)"
    by (cases "run_loop env t (length (files t)) 1 (files t) [] [] w") auto
  have ev: "events = es @ [Emit (Done rs)]" using assms r by (simp add: run_def)
  have ra: "\<And>j. result_at env t (length (files t)) 1 (files t) w j
              = fst (try_block env t (files t ! j) (world_before env t w j))"
    by (simp add: result_at_def world_before_def)
  from run_loop_closed[OF r] show ?thesis
    unfolding ra using ev by simp
qed

text \<open>
  C1.  A run ends by emitting the list of results, which has one result for each requested
  document, in the order of the request.  Take any document of the request and the world
  that the documents before it have left.  If \<open>convert_one\<close> raises there (reading, converting
  or assembling), or if it returns and \<open>render_pdf\<close> raises, the result of the document is
  its path, an empty destination, \<open>False\<close> and the error text, which is not empty; if both
  return, the result is its path, the destination, \<open>True\<close> and an empty error text.  Either
  way the run goes on with the documents after it.  (The hypothesis on the environment is
  that the exceptions of the collaborators carry the name of their class.)
\<close>

theorem run_outcomes:
  assumes "run env t w = (events, w')" and "env_named env"
  shows "\<exists>results body.
      events = body @ [Emit (Done results)]
    \<and> length results = length (files t)
    \<and> (\<forall>i < length (files t).
         fst (results ! i) = path_str (files t ! i)
       \<and> (\<forall>e w1. convert_one env t (files t ! i) (world_before env t w i) = (Inl e, w1) \<longrightarrow>
              results ! i = (path_str (files t ! i), [], False, error_text e)
              \<and> error_text e \<noteq> [])
       \<and> (\<forall>html out w1 e w2.
              convert_one env t (files t ! i) (world_before env t w i) = (Inr (html, out), w1)
              \<and> render_pdf env html (path_parent (files t ! i)) out w1 = (Inl e, w2) \<longrightarrow>
              results ! i = (path_str (files t ! i), [], False, error_text e)
              \<and> error_text e \<noteq> [])
       \<and> (\<forall>html out w1 u w2.
              convert_one env t (files t ! i) (world_before env t w i) = (Inr (html, out), w1)
              \<and> render_pdf env html (path_parent (files t ! i)) out w1 = (Inr u, w2) \<longrightarrow>
              results ! i = (path_str (files t ! i), path_str out, True, [])))"
proof -
  from run_closed[OF assms(1)] obtain results where
    ev: "events = concat (map (\<lambda>j. chunk (length (files t)) (Suc j) (files t ! j)
                 (message_of (files t ! j) (fst (try_block env t (files t ! j) (world_before env t w j)))))
                 [0..<length (files t)]) @ [Emit (Done results)]"
    and rs: "results = map (\<lambda>j. outcome_of (files t ! j)
                        (fst (try_block env t (files t ! j) (world_before env t w j))))
                 [0..<length (files t)]"
    by (elim exE conjE)
  have len: "length results = length (files t)" using rs by simp
  have nth: "\<And>i. i < length (files t) \<Longrightarrow>
      results ! i = outcome_of (files t ! i)
                      (fst (try_block env t (files t ! i) (world_before env t w i)))"
    using rs by simp
  have per: "fst (results ! i) = path_str (files t ! i)
       \<and> (\<forall>e w1. convert_one env t (files t ! i) (world_before env t w i) = (Inl e, w1) \<longrightarrow>
              results ! i = (path_str (files t ! i), [], False, error_text e)
              \<and> error_text e \<noteq> [])
       \<and> (\<forall>html out w1 e w2.
              convert_one env t (files t ! i) (world_before env t w i) = (Inr (html, out), w1)
              \<and> render_pdf env html (path_parent (files t ! i)) out w1 = (Inl e, w2) \<longrightarrow>
              results ! i = (path_str (files t ! i), [], False, error_text e)
              \<and> error_text e \<noteq> [])
       \<and> (\<forall>html out w1 u w2.
              convert_one env t (files t ! i) (world_before env t w i) = (Inr (html, out), w1)
              \<and> render_pdf env html (path_parent (files t ! i)) out w1 = (Inr u, w2) \<longrightarrow>
              results ! i = (path_str (files t ! i), path_str out, True, []))"
    if i: "i < length (files t)" for i
  proof -
    let ?p = "files t ! i" and ?w = "world_before env t w i"
    have ne: "error_text e \<noteq> []" if "fst (try_block env t ?p ?w) = Inl e" for e
      using try_block_named[OF assms(2) that] by (rule error_text_nonempty)
    have a: "fst (results ! i) = path_str ?p"
      using nth[OF i] by (simp add: outcome_of_def split: sum.splits)
    have b: "results ! i = (path_str ?p, [], False, error_text e) \<and> error_text e \<noteq> []"
      if "convert_one env t ?p ?w = (Inl e, w1)" for e w1
    proof -
      have "fst (try_block env t ?p ?w) = Inl e" using that by (simp add: try_block_def)
      then show ?thesis using nth[OF i] ne by (simp add: outcome_of_def)
    qed
    have c: "results ! i = (path_str ?p, [], False, error_text e) \<and> error_text e \<noteq> []"
      if "convert_one env t ?p ?w = (Inr (html, out), w1)"
        and "render_pdf env html (path_parent ?p) out w1 = (Inl e, w2)" for html out w1 e w2
    proof -
      have "fst (try_block env t ?p ?w) = Inl e" using that by (simp add: try_block_def)
      then show ?thesis using nth[OF i] ne by (simp add: outcome_of_def)
    qed
    have d: "results ! i = (path_str ?p, path_str out, True, [])"
      if "convert_one env t ?p ?w = (Inr (html, out), w1)"
        and "render_pdf env html (path_parent ?p) out w1 = (Inr u, w2)" for html out w1 u w2
    proof -
      have "fst (try_block env t ?p ?w) = Inr out" using that by (simp add: try_block_def)
      then show ?thesis using nth[OF i] by (simp add: outcome_of_def)
    qed
    show ?thesis using a b c d by blast
  qed
  show ?thesis
    by (intro exI[of _ results] exI conjI allI impI; (rule ev len | (drule per, blast)))
qed


text \<open>
  C8.  The events of a run are, for the documents in the order of the request, the progress
  signal with the number of the document (from 1) and the total, the log line, the
  processing of the document and the log line of its outcome; and after the events of the
  last document, the completion signal.  The log line of an outcome and the result of a
  document are those of what the \<open>try\<close> block gave for it, and the completion signal
  carries the results of all the documents, in the order of the request.  So the progress
  signals are \<open>(1, n), ..., (n, n)\<close> in this order, each before its document is processed,
  and the completion signal is emitted once, as the last event, with the full list of
  results.
\<close>

theorem run_events:
  assumes "run env t w = (events, w')"
  shows "events =
        concat (map (\<lambda>j. chunk (length (files t)) (Suc j) (files t ! j)
                   (message_of (files t ! j)
                      (fst (try_block env t (files t ! j) (world_before env t w j)))))
                 [0..<length (files t)])
        @ [Emit (Done (map (\<lambda>j. outcome_of (files t ! j)
                              (fst (try_block env t (files t ! j) (world_before env t w j))))
                         [0..<length (files t)]))]
    \<and> progress_of events = map (\<lambda>i. (i, length (files t))) [1..<Suc (length (files t))]
    \<and> done_of events =
        [map (\<lambda>j. outcome_of (files t ! j)
                (fst (try_block env t (files t ! j) (world_before env t w j))))
           [0..<length (files t)]]
    \<and> last events =
        Emit (Done (map (\<lambda>j. outcome_of (files t ! j)
                           (fst (try_block env t (files t ! j) (world_before env t w j))))
                      [0..<length (files t)]))"
proof -
  let ?n = "length (files t)"
  define msgs where "msgs = (\<lambda>j. message_of (files t ! j)
                      (fst (try_block env t (files t ! j) (world_before env t w j))))"
  define results where "results = map (\<lambda>j. outcome_of (files t ! j)
                        (fst (try_block env t (files t ! j) (world_before env t w j))))
                 [0..<?n]"
  from run_closed[OF assms] have
    ev: "events = concat (map (\<lambda>j. chunk ?n (Suc j) (files t ! j) (msgs j)) [0..<?n])
                  @ [Emit (Done results)]"
    unfolding msgs_def results_def by (elim exE conjE) simp
  have "map (\<lambda>j. (Suc j, ?n)) [0..<?n] = map (\<lambda>i. (i, ?n)) (map Suc [0..<?n])"
    by simp
  also have "\<dots> = map (\<lambda>i. (i, ?n)) [1..<Suc ?n]"
    by (simp only: map_Suc_upt One_nat_def)
  finally have shift: "map (\<lambda>j. (Suc j, ?n)) [0..<?n] = map (\<lambda>i. (i, ?n)) [1..<Suc ?n]" .
  have p: "progress_of events = map (\<lambda>i. (i, ?n)) [1..<Suc ?n]"
    unfolding ev progress_of_append progress_of_chunks shift by simp
  have d: "done_of events = [results]"
    unfolding ev done_of_append done_of_chunks by simp
  have l: "last events = Emit (Done results)" unfolding ev by simp
  show ?thesis using ev p d l unfolding msgs_def results_def by blast
qed

subsection \<open>A batch of three documents\<close>

text \<open>Three documents, the second of which cannot be read; a converter that wraps the text
  in a paragraph, a renderer that succeeds, and a page that is the body.\<close>

definition example_task :: task where
  "example_task =
     \<lparr>files = [Path ''/'' [''d'', ''a.md''], Path ''/'' [''d'', ''missing.md''],
               Path ''/'' [''d'', ''c.md'']],
      out_dir = Path ''/'' [''out''], theme = ''Light'', font_family = ''Inter'',
      preserve_structure = False, base_root = None\<rparr>"

definition example_env :: "unit env" where
  "example_env =
     \<lparr>load_text = (\<lambda>p w. if p = Path ''/'' [''d'', ''missing.md'']
                           then (Inl (Exn ''FileNotFoundError'' ''No such file''), w)
                           else (Inr ''hello'', w)),
      build_markdown_html = (\<lambda>s w. (Inr (''<p>'' @ s @ ''</p>''), w)),
      render_pdf = (\<lambda>h b out w. (Inr (), w)),
      html_page = (\<lambda>th font title body. body)\<rparr>"

lemma example_env_named: "env_named example_env"
  by (auto simp: env_named_def example_env_def named_def is_space_def split: if_splits)

lemma example_preprocess: "preprocess_obsidian ''hello'' = ''hello''"
  by code_simp

lemma example_transform: "transform_callouts ''<p>hello</p>'' = Inr ''<p>hello</p>''"
  by code_simp

lemma example_convert_a:
  "convert_one example_env example_task (Path ''/'' [''d'', ''a.md'']) ()
     = (Inr (''<p>hello</p>'', Path ''/'' [''out'', ''a.pdf'']), ())"
proof -
  have "compute_out_path example_task (Path ''/'' [''d'', ''a.md'']) = Path ''/'' [''out'', ''a.pdf'']"
    by code_simp
  then show ?thesis
    by (simp add: convert_one_def example_env_def wrap_html_document_def
        example_preprocess example_transform)
qed

lemma example_convert_missing:
  "convert_one example_env example_task (Path ''/'' [''d'', ''missing.md'']) ()
     = (Inl (Exn ''FileNotFoundError'' ''No such file''), ())"
  by (simp add: convert_one_def example_env_def)

lemma example_error_text:
  "error_text (Exn ''FileNotFoundError'' ''No such file'') = ''FileNotFoundError: No such file''"
  by code_simp

lemma example_render: "render_pdf example_env h b out w = (Inr (), w)"
  by (simp add: example_env_def)

lemma example_convert_c:
  "convert_one example_env example_task (Path ''/'' [''d'', ''c.md'']) ()
     = (Inr (''<p>hello</p>'', Path ''/'' [''out'', ''c.pdf'']), ())"
proof -
  have "compute_out_path example_task (Path ''/'' [''d'', ''c.md'']) = Path ''/'' [''out'', ''c.pdf'']"
    by code_simp
  then show ?thesis
    by (simp add: convert_one_def example_env_def wrap_html_document_def
        example_preprocess example_transform)
qed

lemma example_try:
  "try_block example_env example_task (Path ''/'' [''d'', ''a.md'']) w
     = (Inr (Path ''/'' [''out'', ''a.pdf'']), ())"
  "try_block example_env example_task (Path ''/'' [''d'', ''missing.md'']) w
     = (Inl (Exn ''FileNotFoundError'' ''No such file''), ())"
  "try_block example_env example_task (Path ''/'' [''d'', ''c.md'']) w
     = (Inr (Path ''/'' [''out'', ''c.pdf'']), ())"
  by (simp_all add: try_block_def example_convert_a example_convert_missing example_convert_c
      example_render)

lemma example_strings:
  "path_str (Path ''/'' [''d'', ''a.md'']) = ''/d/a.md''"
  "path_str (Path ''/'' [''out'', ''a.pdf'']) = ''/out/a.pdf''"
  "path_str (Path ''/'' [''d'', ''missing.md'']) = ''/d/missing.md''"
  "path_str (Path ''/'' [''d'', ''c.md'']) = ''/d/c.md''"
  "path_str (Path ''/'' [''out'', ''c.pdf'']) = ''/out/c.pdf''"
  by (simp_all add: path_str_def)

theorem run_outcomes_witness:
  "env_named example_env
   \<and> (\<exists>results body.
        fst (run example_env example_task ()) = body @ [Emit (Done results)]
      \<and> length results = 3
      \<and> results ! 0 = (''/d/a.md'', ''/out/a.pdf'', True, [])
      \<and> results ! 1 = (''/d/missing.md'', [], False, ''FileNotFoundError: No such file''))"
proof -
  have r: "run example_env example_task ()
           = (fst (run example_env example_task ()), snd (run example_env example_task ()))"
    by (rule surjective_pairing)
  have f: "files example_task = [Path ''/'' [''d'', ''a.md''], Path ''/'' [''d'', ''missing.md''],
               Path ''/'' [''d'', ''c.md'']]"
    by (simp add: example_task_def)
  have rp: "render_pdf example_env h b out w = (Inr (), w)" for h b out w
    by (simp add: example_env_def)
  have s1: "path_str (Path ''/'' [''d'', ''a.md'']) = ''/d/a.md''"
    and s2: "path_str (Path ''/'' [''out'', ''a.pdf'']) = ''/out/a.pdf''"
    and s3: "path_str (Path ''/'' [''d'', ''missing.md'']) = ''/d/missing.md''"
    by (simp_all add: path_str_def)
  from run_outcomes[OF r example_env_named] obtain results body where
    ev: "fst (run example_env example_task ()) = body @ [Emit (Done results)]"
    and len: "length results = length (files example_task)"
    and per: "\<forall>i < length (files example_task).
         fst (results ! i) = path_str (files example_task ! i)
       \<and> (\<forall>e w1. convert_one example_env example_task (files example_task ! i)
                     (world_before example_env example_task () i) = (Inl e, w1) \<longrightarrow>
              results ! i = (path_str (files example_task ! i), [], False, error_text e)
              \<and> error_text e \<noteq> [])
       \<and> (\<forall>html out w1 e w2.
              convert_one example_env example_task (files example_task ! i)
                (world_before example_env example_task () i) = (Inr (html, out), w1)
              \<and> render_pdf example_env html (path_parent (files example_task ! i)) out w1
                  = (Inl e, w2) \<longrightarrow>
              results ! i = (path_str (files example_task ! i), [], False, error_text e)
              \<and> error_text e \<noteq> [])
       \<and> (\<forall>html out w1 u w2.
              convert_one example_env example_task (files example_task ! i)
                (world_before example_env example_task () i) = (Inr (html, out), w1)
              \<and> render_pdf example_env html (path_parent (files example_task ! i)) out w1
                  = (Inr u, w2) \<longrightarrow>
              results ! i = (path_str (files example_task ! i), path_str out, True, []))"
    by (elim exE conjE)
  have l3: "length results = 3" using len f by simp
  have r0: "results ! 0 = (''/d/a.md'', ''/out/a.pdf'', True, [])"
    using per[rule_format, of 0] f example_convert_a rp by (simp add: s1 s2)
  have r1: "results ! 1 = (''/d/missing.md'', [], False, ''FileNotFoundError: No such file'')"
    using per[rule_format, of 1] f example_convert_missing
    by (simp add: s3 example_error_text)
  show ?thesis using example_env_named ev l3 r0 r1 by blast
qed


theorem run_events_witness:
  "fst (run example_env example_task ()) =
     [Emit (Progress 1 3), Emit (Message (Converting (Path ''/'' [''d'', ''a.md'']))),
      Process (Path ''/'' [''d'', ''a.md'']),
      Emit (Message (Ready (Path ''/'' [''out'', ''a.pdf'']))),
      Emit (Progress 2 3), Emit (Message (Converting (Path ''/'' [''d'', ''missing.md'']))),
      Process (Path ''/'' [''d'', ''missing.md'']),
      Emit (Message (Failed (Path ''/'' [''d'', ''missing.md''])
                       ''FileNotFoundError: No such file'')),
      Emit (Progress 3 3), Emit (Message (Converting (Path ''/'' [''d'', ''c.md'']))),
      Process (Path ''/'' [''d'', ''c.md'']),
      Emit (Message (Ready (Path ''/'' [''out'', ''c.pdf'']))),
      Emit (Done [(''/d/a.md'', ''/out/a.pdf'', True, []),
                  (''/d/missing.md'', [], False, ''FileNotFoundError: No such file''),
                  (''/d/c.md'', ''/out/c.pdf'', True, [])])]
   \<and> progress_of (fst (run example_env example_task ())) = [(1, 3), (2, 3), (3, 3)]
   \<and> done_of (fst (run example_env example_task ())) =
       [[(''/d/a.md'', ''/out/a.pdf'', True, []),
         (''/d/missing.md'', [], False, ''FileNotFoundError: No such file''),
         (''/d/c.md'', ''/out/c.pdf'', True, [])]]
   \<and> last (fst (run example_env example_task ())) =
       Emit (Done [(''/d/a.md'', ''/out/a.pdf'', True, []),
                   (''/d/missing.md'', [], False, ''FileNotFoundError: No such file''),
                   (''/d/c.md'', ''/out/c.pdf'', True, [])])"
proof -
  have r: "run example_env example_task ()
           = (fst (run example_env example_task ()), snd (run example_env example_task ()))"
    by (rule surjective_pairing)
  have f: "files example_task = [Path ''/'' [''d'', ''a.md''], Path ''/'' [''d'', ''missing.md''],
               Path ''/'' [''d'', ''c.md'']]"
    by (simp add: example_task_def)
  have u: "[0..<3] = [0, 1, 2::nat]" "[1..<Suc 3] = [1, 2, 3::nat]" by code_simp+
  have n: "length (files example_task) = 3" by (simp add: f)
  have nth: "files example_task ! 0 = Path ''/'' [''d'', ''a.md'']"
    "files example_task ! Suc 0 = Path ''/'' [''d'', ''missing.md'']"
    "files example_task ! 2 = Path ''/'' [''d'', ''c.md'']"
    by (simp_all add: f)
  from run_events[OF r] show ?thesis
    unfolding n u
    by (simp add: nth example_try outcome_of_def message_of_def chunk_def example_strings
        example_error_text)
qed

section \<open>The common base of the sources\<close>

text \<open>
  \<open>posixpath.commonpath\<close> on the strings of the paths.  Python compares the lists of
  components in lexicographic order, and the components by their code points.  An index
  outside \<open>s2\<close> would raise \<open>IndexError\<close>.
\<close>

fun common_components :: "string list \<Rightarrow> string list \<Rightarrow> exn + string list" where
  "common_components [] s2 = Inr []"
| "common_components (c # s1) [] = Inl (Exn ''IndexError'' ''list index out of range'')"
| "common_components (c # s1) (d # s2) =
     (if c \<noteq> d then Inr []
      else (case common_components s1 s2 of Inl e \<Rightarrow> Inl e | Inr common \<Rightarrow> Inr (c # common)))"

definition commonpath :: "string list \<Rightarrow> exn + string" where
  "commonpath paths =
     (case paths of
        [] \<Rightarrow> Inl (Exn ''ValueError'' ''commonpath() arg is an empty sequence'')
      | p # ps \<Rightarrow>
          if \<exists>q \<in> set ps. (take 1 q = ''/'') \<noteq> (take 1 p = ''/'')
          then Inl (Exn ''ValueError'' ''Can't mix absolute and relative paths'')
          else
            (let split_paths = map (\<lambda>path. filter (\<lambda>c. c \<noteq> [] \<and> c \<noteq> ''.'')
                                              (split_on (CHR ''/'') path)) paths;
                 s1 = fold min (tl split_paths) (hd split_paths);
                 s2 = fold max (tl split_paths) (hd split_paths)
             in case common_components s1 s2 of
                  Inl e \<Rightarrow> Inl e
                | Inr common \<Rightarrow>
                    Inr ((if take 1 p = ''/'' then ''/'' else []) @ join_with ''/'' common)))"

text \<open>A list comprehension whose element expression may raise: the first exception wins.\<close>

fun collect :: "('e + 'a) list \<Rightarrow> 'e + 'a list" where
  "collect [] = Inr []"
| "collect (Inl e # rs) = Inl e"
| "collect (Inr x # rs) = (case collect rs of Inl e \<Rightarrow> Inl e | Inr xs \<Rightarrow> Inr (x # xs))"

text \<open>
  \<open>MainWindow._common_base\<close>.  \<open>Path.resolve\<close> asks the file system; it is a parameter.
\<close>

definition common_base :: "(path \<Rightarrow> exn + path) \<Rightarrow> path list \<Rightarrow> path option" where
  "common_base resolve paths =
     (case collect (map resolve paths) of
        Inl e \<Rightarrow> None
      | Inr resolved \<Rightarrow>
          (case commonpath (map path_str resolved) of
             Inl e \<Rightarrow> None
           | Inr common \<Rightarrow> Some (parse_path common)))"

text \<open>
  C6.  For no path at all the result is \<open>None\<close>, and for the sources \<open>/a/b/x.md\<close> and
  \<open>/a/c/y.md\<close> it is \<open>/a\<close>.  For the single source \<open>/a/b/x.md\<close>, however, the result is
  the source file itself, not a directory above its parent directory \<open>/a/b\<close>: the common
  path is taken of the files, not of their parent directories.  Relating the parent
  directory to this base raises \<open>ValueError\<close>.
\<close>

theorem common_base_of_one_file:
  "common_base Inr [] = None
   \<and> common_base Inr [Path ''/'' [''a'', ''b'', ''x.md''], Path ''/'' [''a'', ''c'', ''y.md'']]
       = Some (Path ''/'' [''a''])
   \<and> common_base Inr [Path ''/'' [''a'', ''b'', ''x.md'']]
       = Some (Path ''/'' [''a'', ''b'', ''x.md''])
   \<and> path_parent (Path ''/'' [''a'', ''b'', ''x.md'']) = Path ''/'' [''a'', ''b'']
   \<and> relative_to (Path ''/'' [''a'', ''b'']) (Path ''/'' [''a'', ''b'', ''x.md'']) = None"
  by code_simp

section \<open>Reasoning about matches\<close>

lemma lit_prefix:
  "lit x (b, s, g) = (if prefix x s then Some (rev x @ b, drop (length x) s, g) else None)"
proof (induction x arbitrary: b s)
  case Nil
  then show ?case by simp
next
  case (Cons a x)
  show ?case
  proof (cases s)
    case Nil
    then show ?thesis by simp
  next
    case (Cons c cs)
    then show ?thesis using Cons.IH[of "c # b" cs] by simp
  qed
qed

lemma lit_append: "lit x (b, x @ s, g) = Some (rev x @ b, s, g)"
  by (simp add: lit_prefix)

text \<open>A greedy repetition whose continuation cannot start with a character of the class
  takes all the characters of the class.\<close>

lemma star_greedy_det:
  assumes "\<And>b' c cs g'. P c \<Longrightarrow> k (b', c # cs, g') = None"
  shows "star_greedy P k (b, s, g) = k (rev (takeWhile P s) @ b, dropWhile P s, g)"
proof (induction s arbitrary: b)
  case Nil
  then show ?case by simp
next
  case (Cons c cs)
  show ?case
  proof (cases "P c")
    case True
    have "k (b, c # cs, g) = None" using True by (rule assms)
    then have "star_greedy P k (b, c # cs, g) = star_greedy P k (c # b, cs, g)"
      using True by (simp split: option.splits)
    then show ?thesis using Cons.IH[of "c # b"] True by simp
  next
    case False
    then show ?thesis by simp
  qed
qed

text \<open>A greedy repetition whose continuation succeeds after all the characters of the
  class gives that success.\<close>

lemma star_greedy_max:
  assumes "k (rev (takeWhile P s) @ b, dropWhile P s, g) = Some x"
  shows "star_greedy P k (b, s, g) = Some x"
  using assms
proof (induction s arbitrary: b)
  case Nil
  then show ?case by simp
next
  case (Cons c cs)
  show ?case
  proof (cases "P c")
    case True
    then have "k (rev (takeWhile P cs) @ c # b, dropWhile P cs, g) = Some x"
      using Cons.prems by simp
    then have "star_greedy P k (c # b, cs, g) = Some x" by (rule Cons.IH)
    then show ?thesis using True by simp
  next
    case False
    then show ?thesis using Cons.prems by simp
  qed
qed

text \<open>In general the result is the first success of the continuation, from the longest
  repetition down to the empty one.\<close>

lemma star_greedy_none:
  assumes "\<And>u v. s = u @ v \<Longrightarrow> \<forall>c \<in> set u. P c \<Longrightarrow> k (rev u @ b, v, g) = None"
  shows "star_greedy P k (b, s, g) = None"
  using assms
proof (induction s arbitrary: b)
  case Nil
  then show ?case by simp
next
  case (Cons c cs)
  have here: "k (b, c # cs, g) = None" using Cons.prems[of "[]" "c # cs"] by simp
  show ?case
  proof (cases "P c")
    case True
    have "star_greedy P k (c # b, cs, g) = None"
    proof (rule Cons.IH)
      fix u v assume "cs = u @ v" and all: "\<forall>c \<in> set u. P c"
      then have "c # cs = (c # u) @ v" by simp
      from Cons.prems[OF this] all True show "k (rev u @ c # b, v, g) = None" by simp
    qed
    then show ?thesis using here True by simp
  next
    case False
    then show ?thesis using here by simp
  qed
qed

lemma star_greedy_back:
  assumes "\<forall>c \<in> set u. P c"
    and "k (rev u @ b, t, g) = Some x"
    and "\<And>v1 v2. t = v1 @ v2 \<Longrightarrow> v1 \<noteq> [] \<Longrightarrow> \<forall>c \<in> set v1. P c \<Longrightarrow>
           k (rev v1 @ rev u @ b, v2, g) = None"
  shows "star_greedy P k (b, u @ t, g) = Some x"
  using assms
proof (induction u arbitrary: b)
  case Nil
  show ?case
  proof (cases t)
    case Nil
    then show ?thesis using Nil.prems(2) by simp
  next
    case (Cons c cs)
    show ?thesis
    proof (cases "P c")
      case True
      have "star_greedy P k (c # b, cs, g) = None"
      proof (rule star_greedy_none)
        fix u' v' assume "cs = u' @ v'" and all: "\<forall>c \<in> set u'. P c"
        then have "t = (c # u') @ v'" using Cons by simp
        from Nil.prems(3)[OF this] True all show "k (rev u' @ c # b, v', g) = None" by simp
      qed
      then show ?thesis using Cons True Nil.prems(2) by simp
    next
      case False
      then show ?thesis using Cons Nil.prems(2) by simp
    qed
  qed
next
  case (Cons c u)
  have pc: "P c" using Cons.prems(1) by simp
  have "star_greedy P k (c # b, u @ t, g) = Some x"
  proof (rule Cons.IH)
    show "\<forall>c\<in>set u. P c" using Cons.prems(1) by simp
    show "k (rev u @ c # b, t, g) = Some x" using Cons.prems(2) by simp
    show "\<And>v1 v2. t = v1 @ v2 \<Longrightarrow> v1 \<noteq> [] \<Longrightarrow> \<forall>c \<in> set v1. P c \<Longrightarrow>
            k (rev v1 @ rev u @ c # b, v2, g) = None"
      using Cons.prems(3) by simp
  qed
  then show ?case using pc by simp
qed

text \<open>A lazy repetition gives the first success of the continuation, from the empty
  repetition up.\<close>

lemma star_lazy_here:
  assumes "k (b, s, g) = Some x"
  shows "star_lazy P k (b, s, g) = Some x"
  using assms by (cases s) simp_all

lemma star_lazy_skip:
  assumes "\<forall>c \<in> set u. P c"
    and "\<And>v1 v2. u = v1 @ v2 \<Longrightarrow> v2 \<noteq> [] \<Longrightarrow> k (rev v1 @ b, v2 @ s, g) = None"
  shows "star_lazy P k (b, u @ s, g) = star_lazy P k (rev u @ b, s, g)"
  using assms
proof (induction u arbitrary: b)
  case Nil
  then show ?case by simp
next
  case (Cons c u)
  have here: "k (b, c # u @ s, g) = None" using Cons.prems(2)[of "[]" "c # u"] by simp
  have "star_lazy P k (c # b, u @ s, g) = star_lazy P k (rev u @ c # b, s, g)"
  proof (rule Cons.IH)
    show "\<forall>c\<in>set u. P c" using Cons.prems(1) by simp
    fix v1 v2 assume "u = v1 @ v2" and ne: "v2 \<noteq> []"
    then have "c # u = (c # v1) @ v2" by simp
    from Cons.prems(2)[OF this ne] show "k (rev v1 @ c # b, v2 @ s, g) = None" by simp
  qed
  then show ?case using here Cons.prems(1) by simp
qed

lemma star_lazy_none:
  assumes "\<And>u v. s = u @ v \<Longrightarrow> k (rev u @ b, v, g) = None"
  shows "star_lazy P k (b, s, g) = None"
  using assms
proof (induction s arbitrary: b)
  case Nil
  then show ?case by simp
next
  case (Cons c cs)
  have here: "k (b, c # cs, g) = None" using Cons.prems[of "[]" "c # cs"] by simp
  have "star_lazy P k (c # b, cs, g) = None"
  proof (rule Cons.IH)
    fix u v assume "cs = u @ v"
    then have "c # cs = (c # u) @ v" by simp
    from Cons.prems[OF this] show "k (rev u @ c # b, v, g) = None" by simp
  qed
  then show ?case using here by simp
qed


subsection \<open>Searching and substituting\<close>

lemma accept_False: "accept False s0 st = Some st"
  by (cases st) simp

lemma search_hit:
  "rmatch r (accept False s) (b, s, []) = Some e \<Longrightarrow> search r False b s = Some (Match b s e)"
  by (cases s) simp_all

lemma search_miss:
  "rmatch r (accept False (c # cs)) (b, c # cs, []) = None
   \<Longrightarrow> search r False b (c # cs) = search r False (c # b) cs"
  by simp

lemma search_end_miss:
  "rmatch r (accept False []) (b, [], []) = None \<Longrightarrow> search r False b [] = None"
  by simp

lemma sub_pieces_all:
  "sub_pieces r 0 n adv b s =
     (case search r adv b s of
        None \<Rightarrow> [Text s]
      | Some (Match b0 s0 (b1, s1, g)) \<Rightarrow>
          Text (take (length s - length s0) s) # Hit (Match b0 s0 (b1, s1, g))
            # sub_pieces r 0 (n + 1) (length s1 = length s0) b1 s1)"
  by (subst sub_pieces.simps) simp

text \<open>The text that a substitution of every match makes of the text after a position.\<close>

definition sub_text :: "re \<Rightarrow> (rmatch_obj \<Rightarrow> string) \<Rightarrow> nat \<Rightarrow> string \<Rightarrow> string \<Rightarrow> string" where
  "sub_text r f n b s = concat (map (piece_text f) (sub_pieces r 0 n False b s))"

lemma sub_text_end:
  "rmatch r (accept False []) (b, [], []) = None \<Longrightarrow> sub_text r f n b [] = []"
  by (simp add: sub_text_def sub_pieces_all)

lemma sub_text_skip:
  assumes "rmatch r (accept False (c # cs)) (b, c # cs, []) = None"
  shows "sub_text r f n b (c # cs) = c # sub_text r f n (c # b) cs"
proof (cases "search r False (c # b) cs")
  case None
  then show ?thesis using assms by (simp add: sub_text_def sub_pieces_all)
next
  case (Some m)
  obtain b0 s0 b1 s1 g where m: "m = Match b0 s0 (b1, s1, g)"
    by (cases m) (metis prod_cases3 rmatch_obj.exhaust)
  from search_lengths(2)[OF Some[unfolded m]] have "length s0 \<le> length cs" .
  then have "Suc (length cs) - length s0 = Suc (length cs - length s0)" by simp
  then show ?thesis using assms Some m
    by (simp add: sub_text_def sub_pieces_all[of r n False b] sub_pieces_all[of r n False "c # b"])
qed

lemma sub_text_skip_many:
  assumes "\<And>v1 v2. u = v1 @ v2 \<Longrightarrow> v2 \<noteq> [] \<Longrightarrow>
             rmatch r (accept False (v2 @ s)) (rev v1 @ b, v2 @ s, []) = None"
  shows "sub_text r f n b (u @ s) = u @ sub_text r f n (rev u @ b) s"
  using assms
proof (induction u arbitrary: b)
  case Nil
  then show ?case by simp
next
  case (Cons c u)
  have here: "rmatch r (accept False (c # u @ s)) (b, c # u @ s, []) = None"
    using Cons.prems[of "[]" "c # u"] by simp
  have "sub_text r f n (c # b) (u @ s) = u @ sub_text r f n (rev u @ c # b) s"
  proof (rule Cons.IH)
    fix v1 v2 assume "u = v1 @ v2" and ne: "v2 \<noteq> []"
    then have "c # u = (c # v1) @ v2" by simp
    from Cons.prems[OF this ne]
    show "rmatch r (accept False (v2 @ s)) (rev v1 @ c # b, v2 @ s, []) = None" by simp
  qed
  then show ?case using sub_text_skip[OF here, of f n] by simp
qed

lemma sub_text_hit:
  assumes "rmatch r (accept False s) (b, s, []) = Some (b1, s1, g)" and "length s1 \<noteq> length s"
  shows "sub_text r f n b s = f (Match b s (b1, s1, g)) @ sub_text r f (n + 1) b1 s1"
  using search_hit[OF assms(1)] assms(2)
  by (simp add: sub_text_def sub_pieces_all[of r n False b])

lemma re_sub_all: "re_sub r f s 0 = sub_text r f 0 [] s"
  by (simp add: re_sub_def sub_text_def)

section \<open>The preprocessor, line by line\<close>

text \<open>
  What the pattern of \<open>preprocess_obsidian\<close> finds in one line: after the optional
  indentation, \<open>>\<close>, optional blanks and \<open>[!\<close>, the letters up to \<open>]\<close> (at least one), and the
  rest of the line without its leading blanks.
\<close>

definition header_tail :: "string \<Rightarrow> (string \<times> string) option" where
  "header_tail l =
     (let kind = takeWhile is_ascii_letter l in
      if kind = [] then None
      else (case dropWhile is_ascii_letter l of
              [] \<Rightarrow> None
            | c # l' \<Rightarrow> if c = CHR '']'' then Some (kind, dropWhile space_or_tab l') else None))"

definition header_tag :: "string \<Rightarrow> (string \<times> string) option" where
  "header_tag l =
     (case dropWhile space_or_tab l of
        c # d # l' \<Rightarrow> if c = CHR ''['' \<and> d = CHR ''!'' then header_tail l' else None
      | _ \<Rightarrow> None)"

definition header_parts :: "string \<Rightarrow> (string \<times> string) option" where
  "header_parts l =
     (case dropWhile space_or_tab l of
        [] \<Rightarrow> None
      | c # l' \<Rightarrow> if c = CHR ''>'' then header_tag l' else None)"

text \<open>The line that replaces a header line, and the rewriting of any line.\<close>

definition marker_line :: "string \<Rightarrow> string \<Rightarrow> string" where
  "marker_line kind title =
     (if strip title \<noteq> []
      then ''> <!--callout:'' @ lower kind @ '' title=\"'' @ strip title @ ''\"-->''
      else ''> <!--callout:'' @ lower kind @ ''-->'')"

definition rewrite_line :: "string \<Rightarrow> string" where
  "rewrite_line l =
     (case header_parts l of None \<Rightarrow> l | Some (kind, title) \<Rightarrow> marker_line kind title)"

subsection \<open>The pattern at the start of a line\<close>

text \<open>A line is followed by the end of the text or by a line feed.\<close>

definition line_end :: "string \<Rightarrow> bool" where
  "line_end rest \<longleftrightarrow> rest = [] \<or> hd rest = newline"

lemma takeWhile_line:
  "\<not> P newline \<Longrightarrow> line_end rest \<Longrightarrow> takeWhile P (l @ rest) = takeWhile P l"
  by (induction l) (auto simp: line_end_def takeWhile_eq_Nil_iff neq_Nil_conv)

lemma dropWhile_line:
  "\<not> P newline \<Longrightarrow> line_end rest \<Longrightarrow> dropWhile P (l @ rest) = dropWhile P l @ rest"
  by (induction l) (auto simp: line_end_def dropWhile_eq_self_iff neq_Nil_conv)

lemma take_takeWhile:
  "take (length (l @ r) - length (dropWhile P l @ r)) (l @ r) = takeWhile P l"
proof -
  have "length l = length (takeWhile P l) + length (dropWhile P l)"
    by (metis length_append takeWhile_dropWhile_id)
  then have "length (l @ r) - length (dropWhile P l @ r) = length (takeWhile P l)" by simp
  moreover have "take (length (takeWhile P l)) (l @ r) = takeWhile P l"
    by (metis append_assoc append_eq_conv_conj takeWhile_dropWhile_id)
  ultimately show ?thesis by simp
qed

lemma not_blank_newline [simp]: "\<not> space_or_tab newline"
  by (simp add: space_or_tab_def)

lemma not_letter_newline [simp]: "\<not> is_ascii_letter newline"
  by (simp add: is_ascii_letter_def is_ascii_upper_def is_ascii_lower_def)

lemma not_not_newline [simp]: "\<not> not_newline newline"
  by (simp add: not_newline_def)

text \<open>The tails of the pattern, from the last one.\<close>

definition re_title :: re where
  "re_title = seq [Opt (Group 2 (Star not_newline)), Eol_multiline]"

definition re_blank_title :: re where
  "re_blank_title = Cat (Star space_or_tab) re_title"

definition re_close :: re where
  "re_close = Cat (Lit '']'') re_blank_title"

definition re_kind :: re where
  "re_kind = Cat (Group 1 (Plus is_ascii_letter)) re_close"

definition re_open :: re where
  "re_open = Cat (Lit ''[!'') re_kind"

definition re_tag :: re where
  "re_tag = Cat (Star space_or_tab) re_open"

definition re_quote :: re where
  "re_quote = Cat (Lit ''>'') re_tag"

lemma callout_re_tails:
  "callout_re = Cat Bol_multiline (Cat (Star space_or_tab) re_quote)"
  by (simp add: callout_re_def re_quote_def re_tag_def re_open_def re_kind_def re_close_def
      re_blank_title_def re_title_def)

lemma match_title:
  assumes "newline \<notin> set l" and "line_end rest"
  shows "rmatch re_title (accept False s0) (b, l @ rest, g) = Some (rev l @ b, rest, (2, l) # g)"
proof -
  have all: "\<forall>c \<in> set l. not_newline c" using assms(1) by (auto simp: not_newline_def)
  have tw: "takeWhile not_newline (l @ rest) = l"
    using takeWhile_line[of not_newline rest l] assms(2) all by simp
  have dw: "dropWhile not_newline (l @ rest) = rest"
    using dropWhile_line[of not_newline rest l] assms(2) all by simp
  let ?k = "\<lambda>(b', s', g'). rmatch Eol_multiline (accept False s0)
              (b', s', (2, take (length (l @ rest) - length s') (l @ rest)) # g')"
  have "?k (rev (takeWhile not_newline (l @ rest)) @ b, dropWhile not_newline (l @ rest), g)
        = Some (rev l @ b, rest, (2, l) # g)"
    using assms(2) by (simp add: tw dw line_end_def)
  then have "star_greedy not_newline ?k (b, l @ rest, g) = Some (rev l @ b, rest, (2, l) # g)"
    by (rule star_greedy_max)
  then show ?thesis by (simp add: re_title_def)
qed

lemma match_blank_title:
  assumes "newline \<notin> set l" and "line_end rest"
  shows "rmatch re_blank_title (accept False s0) (b, l @ rest, g)
         = Some (rev l @ b, rest, (2, dropWhile space_or_tab l) # g)"
proof -
  have tw: "takeWhile space_or_tab (l @ rest) = takeWhile space_or_tab l"
    using assms(2) by (simp add: takeWhile_line)
  have dw: "dropWhile space_or_tab (l @ rest) = dropWhile space_or_tab l @ rest"
    using assms(2) by (simp add: dropWhile_line)
  have nl: "newline \<notin> set (dropWhile space_or_tab l)"
    using assms(1) by (meson set_dropWhileD)
  have "rev (dropWhile space_or_tab l) @ rev (takeWhile space_or_tab l) = rev l"
    by (metis rev_append takeWhile_dropWhile_id)
  then have "rmatch re_title (accept False s0)
          (rev (takeWhile space_or_tab (l @ rest)) @ b, dropWhile space_or_tab (l @ rest), g)
        = Some (rev l @ b, rest, (2, dropWhile space_or_tab l) # g)"
    using match_title[OF nl assms(2), of s0 "rev (takeWhile space_or_tab l) @ b" g]
    by (simp add: tw dw)
  then have "star_greedy space_or_tab (rmatch re_title (accept False s0)) (b, l @ rest, g)
        = Some (rev l @ b, rest, (2, dropWhile space_or_tab l) # g)"
    by (rule star_greedy_max)
  then show ?thesis by (simp add: re_blank_title_def)
qed

lemma match_close:
  assumes "newline \<notin> set l" and "line_end rest"
  shows "rmatch re_close (accept False s0) (b, l @ rest, g)
         = (case l of
              [] \<Rightarrow> None
            | c # l' \<Rightarrow> if c = CHR '']'' then Some (rev l @ b, rest, (2, dropWhile space_or_tab l') # g)
                        else None)"
proof (cases l)
  case Nil
  then show ?thesis using assms(2)
    by (cases rest) (auto simp: re_close_def line_end_def)
next
  case (Cons c l')
  then have nl: "newline \<notin> set l'" using assms(1) by simp
  show ?thesis using Cons match_blank_title[OF nl assms(2), of s0 "c # b" g]
    by (cases "c = CHR '']''") (simp_all add: re_close_def)
qed

lemma match_close_letter:
  "is_ascii_letter c \<Longrightarrow> rmatch re_close k (b, c # cs, g) = None"
  by (auto simp: re_close_def is_ascii_letter_def is_ascii_upper_def is_ascii_lower_def)

lemma match_kind:
  assumes "newline \<notin> set l" and "line_end rest"
  shows "rmatch re_kind (accept False s0) (b, l @ rest, g)
         = (case header_tail l of
              None \<Rightarrow> None
            | Some (kind, title) \<Rightarrow> Some (rev l @ b, rest, (2, title) # (1, kind) # g))"
proof (cases l)
  case Nil
  then show ?thesis using assms(2)
    by (cases rest) (auto simp: re_kind_def line_end_def header_tail_def)
next
  case (Cons c l')
  show ?thesis
  proof (cases "is_ascii_letter c")
    case False
    then show ?thesis using Cons by (simp add: re_kind_def header_tail_def)
  next
    case True
    let ?k = "\<lambda>(b', s', g'). rmatch re_close (accept False s0)
                (b', s', (1, take (length (l @ rest) - length s') (l @ rest)) # g')"
    let ?d = "dropWhile is_ascii_letter l'"
    have fails: "\<And>b' c cs g'. is_ascii_letter c \<Longrightarrow> ?k (b', c # cs, g') = None"
      by (simp add: match_close_letter)
    have tw: "takeWhile is_ascii_letter (l' @ rest) = takeWhile is_ascii_letter l'"
      using assms(2) by (simp add: takeWhile_line)
    have dw: "dropWhile is_ascii_letter (l' @ rest) = ?d @ rest"
      using assms(2) by (simp add: dropWhile_line)
    have d: "dropWhile is_ascii_letter l = ?d" using Cons True by simp
    have kind: "take (length (l @ rest) - length (?d @ rest)) (l @ rest) = takeWhile is_ascii_letter l"
      using take_takeWhile[of l rest is_ascii_letter] by (simp only: d)
    have nl: "newline \<notin> set ?d" using assms(1) Cons by (meson list.set_intros(2) set_dropWhileD)
    have whole: "rev ?d @ rev (takeWhile is_ascii_letter l') @ c # b = rev l @ b"
      using Cons by (metis append.assoc append_Cons append_Nil rev.simps(2) rev_append
          takeWhile_dropWhile_id)
    have ht: "header_tail l = (case ?d of
              [] \<Rightarrow> None
            | c' # l'' \<Rightarrow> if c' = CHR '']''
                then Some (takeWhile is_ascii_letter l, dropWhile space_or_tab l'') else None)"
    proof -
      have ne: "takeWhile is_ascii_letter l \<noteq> []" using Cons True by simp
      show ?thesis unfolding header_tail_def Let_def d using ne by simp
    qed
    have "rmatch re_kind (accept False s0) (b, l @ rest, g)
          = star_greedy is_ascii_letter ?k (c # b, l' @ rest, g)"
      using Cons True by (simp add: re_kind_def)
    also have "\<dots> = ?k (rev (takeWhile is_ascii_letter (l' @ rest)) @ c # b,
                           dropWhile is_ascii_letter (l' @ rest), g)"
      using fails by (rule star_greedy_det)
    also have "\<dots> = rmatch re_close (accept False s0)
                 (rev (takeWhile is_ascii_letter l') @ c # b, ?d @ rest,
                  (1, takeWhile is_ascii_letter l) # g)"
      by (simp only: tw dw kind prod.case)
    also have "\<dots> = (case ?d of
              [] \<Rightarrow> None
            | c' # l'' \<Rightarrow> if c' = CHR '']''
                then Some (rev ?d @ rev (takeWhile is_ascii_letter l') @ c # b, rest,
                           (2, dropWhile space_or_tab l'') # (1, takeWhile is_ascii_letter l) # g)
                else None)"
      by (simp only: match_close[OF nl assms(2)])
    also have "\<dots> = (case header_tail l of
              None \<Rightarrow> None
            | Some (kind, title) \<Rightarrow> Some (rev l @ b, rest, (2, title) # (1, kind) # g))"
    proof (cases ?d)
      case Nil
      show ?thesis by (simp only: ht Nil list.case option.case)
    next
      case (Cons c' l'')
      have w2: "rev (c' # l'') @ rev (takeWhile is_ascii_letter l') @ c # b = rev l @ b"
        using whole by (simp only: Cons)
      show ?thesis
      proof (cases "c' = CHR '']''")
        case True
        show ?thesis unfolding ht Cons using True w2 by simp
      next
        case False
        show ?thesis unfolding ht Cons using False by simp
      qed
    qed
    finally show ?thesis .
  qed
qed


text \<open>The end of a match that consumes the line \<open>l\<close>, with the two groups.\<close>

definition hit ::
  "string \<Rightarrow> string \<Rightarrow> string \<Rightarrow> (nat \<times> string) list \<Rightarrow> (string \<times> string) option
     \<Rightarrow> mstate option" where
  "hit l b rest g r =
     (case r of
        None \<Rightarrow> None
      | Some (kind, title) \<Rightarrow> Some (rev l @ b, rest, (2, title) # (1, kind) # g))"

lemma hit_None [simp]: "hit l b rest g None = None"
  by (simp add: hit_def)

lemma hit_same: "rev l1 @ b1 = rev l2 @ b2 \<Longrightarrow> hit l1 b1 rest g r = hit l2 b2 rest g r"
  by (simp add: hit_def split: option.splits)

lemma match_kind_hit:
  assumes "newline \<notin> set l" and "line_end rest"
  shows "rmatch re_kind (accept False s0) (b, l @ rest, g) = hit l b rest g (header_tail l)"
  unfolding hit_def by (rule match_kind[OF assms])

lemma match_open:
  assumes "newline \<notin> set l" and "line_end rest"
  shows "rmatch re_open (accept False s0) (b, l @ rest, g)
         = hit l b rest g
             (case l of
                c # d # l' \<Rightarrow> if c = CHR ''['' \<and> d = CHR ''!'' then header_tail l' else None
              | _ \<Rightarrow> None)"
proof (cases l)
  case Nil
  then show ?thesis using assms(2)
    by (cases rest) (auto simp: re_open_def line_end_def)
next
  case (Cons c l1)
  note l = Cons
  show ?thesis
  proof (cases l1)
    case Nil
    then show ?thesis using assms(2) l
      by (cases rest) (auto simp: re_open_def line_end_def)
  next
    case (Cons d l')
    have nl: "newline \<notin> set l'" using assms(1) l Cons by simp
    have same: "hit l' (d # c # b) rest g (header_tail l') = hit l b rest g (header_tail l')"
      by (rule hit_same) (simp add: l Cons)
    show ?thesis
    proof (cases "c = CHR ''['' \<and> d = CHR ''!''")
      case True
      then have "rmatch re_open (accept False s0) (b, l @ rest, g)
                 = rmatch re_kind (accept False s0) (d # c # b, l' @ rest, g)"
        using l Cons by (simp add: re_open_def)
      also have "\<dots> = hit l b rest g (header_tail l')"
        using match_kind_hit[OF nl assms(2)] same by simp
      finally show ?thesis using True l Cons by simp
    next
      case False
      then have "rmatch re_open (accept False s0) (b, l @ rest, g) = None"
        using l Cons by (auto simp: re_open_def)
      then show ?thesis using False l Cons by auto
    qed
  qed
qed

lemma match_open_blank:
  "space_or_tab c \<Longrightarrow> rmatch re_open k (b, c # cs, g) = None"
  by (auto simp: re_open_def space_or_tab_def)

lemma match_tag:
  assumes "newline \<notin> set l" and "line_end rest"
  shows "rmatch re_tag (accept False s0) (b, l @ rest, g) = hit l b rest g (header_tag l)"
proof -
  let ?t = "takeWhile space_or_tab l"
  let ?d = "dropWhile space_or_tab l"
  have tw: "takeWhile space_or_tab (l @ rest) = ?t"
    using assms(2) by (simp add: takeWhile_line)
  have dw: "dropWhile space_or_tab (l @ rest) = ?d @ rest"
    using assms(2) by (simp add: dropWhile_line)
  have nl: "newline \<notin> set ?d" using assms(1) by (meson set_dropWhileD)
  have whole: "rev ?d @ rev ?t @ b = rev l @ b"
    by (metis append.assoc rev_append takeWhile_dropWhile_id)
  have "rmatch re_tag (accept False s0) (b, l @ rest, g)
        = star_greedy space_or_tab (rmatch re_open (accept False s0)) (b, l @ rest, g)"
    by (simp add: re_tag_def)
  also have "\<dots> = rmatch re_open (accept False s0)
                      (rev (takeWhile space_or_tab (l @ rest)) @ b,
                       dropWhile space_or_tab (l @ rest), g)"
    by (rule star_greedy_det) (rule match_open_blank)
  also have "\<dots> = rmatch re_open (accept False s0) (rev ?t @ b, ?d @ rest, g)"
    by (simp only: tw dw)
  also have "\<dots> = hit ?d (rev ?t @ b) rest g (header_tag l)"
    unfolding header_tag_def by (rule match_open[OF nl assms(2)])
  also have "\<dots> = hit l b rest g (header_tag l)"
    by (rule hit_same) (rule whole)
  finally show ?thesis .
qed

lemma match_quote:
  assumes "newline \<notin> set l" and "line_end rest"
  shows "rmatch re_quote (accept False s0) (b, l @ rest, g)
         = hit l b rest g
             (case l of [] \<Rightarrow> None | c # l' \<Rightarrow> if c = CHR ''>'' then header_tag l' else None)"
proof (cases l)
  case Nil
  then show ?thesis using assms(2)
    by (cases rest) (auto simp: re_quote_def line_end_def)
next
  case (Cons c l')
  have nl: "newline \<notin> set l'" using assms(1) Cons by simp
  have same: "hit l' (c # b) rest g (header_tag l') = hit l b rest g (header_tag l')"
    by (rule hit_same) (simp add: Cons)
  show ?thesis
  proof (cases "c = CHR ''>''")
    case True
    then have "rmatch re_quote (accept False s0) (b, l @ rest, g)
               = rmatch re_tag (accept False s0) (c # b, l' @ rest, g)"
      using Cons by (simp add: re_quote_def)
    also have "\<dots> = hit l b rest g (header_tag l')"
      using match_tag[OF nl assms(2)] same by simp
    finally show ?thesis using True Cons by simp
  next
    case False
    then have "rmatch re_quote (accept False s0) (b, l @ rest, g) = None"
      using Cons by (auto simp: re_quote_def)
    then show ?thesis using False Cons by auto
  qed
qed

lemma match_quote_blank:
  "space_or_tab c \<Longrightarrow> rmatch re_quote k (b, c # cs, g) = None"
  by (auto simp: re_quote_def space_or_tab_def)

text \<open>The pattern at a position: it matches only at the start of a line, a header line,
  and then the whole line.\<close>

lemma match_callout:
  assumes "newline \<notin> set l" and "line_end rest"
  shows "rmatch callout_re (accept False s0) (b, l @ rest, [])
         = (if b = [] \<or> hd b = newline then hit l b rest [] (header_parts l) else None)"
proof -
  let ?t = "takeWhile space_or_tab l"
  let ?d = "dropWhile space_or_tab l"
  have tw: "takeWhile space_or_tab (l @ rest) = ?t"
    using assms(2) by (simp add: takeWhile_line)
  have dw: "dropWhile space_or_tab (l @ rest) = ?d @ rest"
    using assms(2) by (simp add: dropWhile_line)
  have nl: "newline \<notin> set ?d" using assms(1) by (meson set_dropWhileD)
  have whole: "rev ?d @ rev ?t @ b = rev l @ b"
    by (metis append.assoc rev_append takeWhile_dropWhile_id)
  have "star_greedy space_or_tab (rmatch re_quote (accept False s0)) (b, l @ rest, [])
        = rmatch re_quote (accept False s0)
            (rev (takeWhile space_or_tab (l @ rest)) @ b, dropWhile space_or_tab (l @ rest), [])"
    by (rule star_greedy_det) (rule match_quote_blank)
  also have "\<dots> = rmatch re_quote (accept False s0) (rev ?t @ b, ?d @ rest, [])"
    by (simp only: tw dw)
  also have "\<dots> = hit ?d (rev ?t @ b) rest [] (header_parts l)"
    unfolding header_parts_def by (rule match_quote[OF nl assms(2)])
  also have "\<dots> = hit l b rest [] (header_parts l)"
    by (rule hit_same) (rule whole)
  finally show ?thesis by (simp add: callout_re_tails)
qed

subsection \<open>The substitution, line by line\<close>

lemma header_parts_Nil [simp]: "header_parts [] = None"
  by (simp add: header_parts_def)

lemma no_match_after_line:
  assumes "line_end rest"
  shows "rmatch callout_re (accept False s0) (b, rest, []) = None"
proof -
  have "rmatch callout_re (accept False s0) (b, [] @ rest, [])
        = (if b = [] \<or> hd b = newline then hit [] b rest [] (header_parts []) else None)"
    by (rule match_callout) (simp_all add: assms)
  then show ?thesis by simp
qed

lemma sub_text_line_end:
  assumes "line_end rest"
  shows "sub_text callout_re f n b rest
         = (case rest of [] \<Rightarrow> [] | c # nxt \<Rightarrow> c # sub_text callout_re f n (c # b) nxt)"
proof (cases rest)
  case Nil
  show ?thesis unfolding Nil
    using sub_text_end[OF no_match_after_line[of "[]" "[]" b], of f n]
    by (simp add: line_end_def)
next
  case (Cons c nxt)
  have "rmatch callout_re (accept False (c # nxt)) (b, c # nxt, []) = None"
    using no_match_after_line[OF assms] Cons by simp
  from sub_text_skip[OF this] show ?thesis by (simp add: Cons)
qed

lemma repl_callout_hit:
  "repl_callout (Match b s (b', s', [(2, title), (Suc 0, kind)])) = marker_line kind title"
  by (simp add: repl_callout_def marker_line_def group_or_empty_def Let_def)

lemma sub_text_line:
  assumes "newline \<notin> set l" and "line_end rest" and "b = [] \<or> hd b = newline"
  shows "sub_text callout_re repl_callout n b (l @ rest)
         = rewrite_line l @ sub_text callout_re repl_callout
                              (case header_parts l of None \<Rightarrow> n | Some x \<Rightarrow> n + 1)
                              (rev l @ b) rest"
proof (cases "header_parts l")
  case None
  have "sub_text callout_re repl_callout n b (l @ rest)
        = l @ sub_text callout_re repl_callout n (rev l @ b) rest"
  proof (rule sub_text_skip_many)
    fix v1 v2 assume l: "l = v1 @ v2" and ne: "v2 \<noteq> []"
    have nl: "newline \<notin> set v2" using assms(1) l by simp
    show "rmatch callout_re (accept False (v2 @ rest)) (rev v1 @ b, v2 @ rest, []) = None"
    proof (cases v1)
      case Nil
      then have "v2 = l" using l by simp
      then show ?thesis using match_callout[OF nl assms(2), of "v2 @ rest" "rev v1 @ b"] None Nil
        by simp
    next
      case (Cons a v)
      define b' where "b' = rev v1 @ b"
      have "last v1 \<in> set l" using l Cons by (metis Un_iff last_in_set list.distinct(1) set_append)
      then have "last v1 \<noteq> newline" using assms(1) by auto
      moreover have "v1 \<noteq> []" using Cons by simp
      ultimately have "\<not> (b' = [] \<or> hd b' = newline)"
        by (simp add: b'_def hd_append hd_rev)
      then have "rmatch callout_re (accept False (v2 @ rest)) (b', v2 @ rest, []) = None"
        using match_callout[OF nl assms(2), of "v2 @ rest" b'] by simp
      then show ?thesis by (simp only: b'_def)
    qed
  qed
  then show ?thesis using None by (simp add: rewrite_line_def)
next
  case (Some x)
  obtain kind title where x: "x = (kind, title)" by (cases x)
  have ne: "l \<noteq> []" using Some by auto
  have m: "rmatch callout_re (accept False (l @ rest)) (b, l @ rest, [])
           = Some (rev l @ b, rest, [(2, title), (1, kind)])"
    using match_callout[OF assms(1,2), of "l @ rest" b] assms(3) Some x by (simp add: hit_def)
  have len: "length rest \<noteq> length (l @ rest)" using ne by simp
  from sub_text_hit[OF m len, of repl_callout n]
  show ?thesis using Some x by (simp add: repl_callout_hit rewrite_line_def)
qed

lemma split_on_nonempty [simp]: "split_on sep s \<noteq> []"
  by (induction s) (auto split: list.splits)

lemma split_on_line:
  "sep \<notin> set l \<Longrightarrow> split_on sep (l @ sep # nxt) = l # split_on sep nxt"
  by (induction l) auto

lemma join_with_Cons:
  "ps \<noteq> [] \<Longrightarrow> join_with sep (p # ps) = p @ sep @ join_with sep ps"
  by (cases ps) simp_all

text \<open>The text after a position at the start of a line is rewritten line by line.\<close>

lemma sub_text_lines:
  assumes "b = [] \<or> hd b = newline"
  shows "sub_text callout_re repl_callout n b s
         = join_with [newline] (map rewrite_line (split_on newline s))"
  using assms
proof (induction s arbitrary: n b rule: length_induct)
  case (1 s)
  define l where "l = takeWhile not_newline s"
  define rest where "rest = dropWhile not_newline s"
  have s: "s = l @ rest" by (simp add: l_def rest_def)
  have nl: "newline \<notin> set l"
    unfolding l_def by (metis (full_types) not_newline_def set_takeWhileD)
  have le: "line_end rest"
    unfolding line_end_def rest_def
    by (metis (full_types) hd_dropWhile not_newline_def)
  define n' where "n' = (case header_parts l of None \<Rightarrow> n | Some x \<Rightarrow> n + 1)"
  have step: "sub_text callout_re repl_callout n b s
      = rewrite_line l @ sub_text callout_re repl_callout n' (rev l @ b) rest"
    unfolding s n'_def by (rule sub_text_line[OF nl le 1(2)])
  show ?case
  proof (cases rest)
    case Nil
    have sp: "split_on newline s = [l]" using nl s Nil by (simp add: split_on_no_sep)
    have "sub_text callout_re repl_callout n' (rev l @ b) rest = []"
      using sub_text_line_end[OF le, of repl_callout n' "rev l @ b"] by (simp add: Nil)
    then show ?thesis by (simp add: step sp)
  next
    case (Cons c nxt)
    have c: "c = newline" using le Cons by (simp add: line_end_def)
    have s': "s = l @ newline # nxt" using s Cons c by simp
    have sp: "split_on newline s = l # split_on newline nxt"
      unfolding s' by (rule split_on_line[OF nl])
    have shorter: "length nxt < length s" unfolding s' by simp
    have ih: "sub_text callout_re repl_callout n' (newline # rev l @ b) nxt
              = join_with [newline] (map rewrite_line (split_on newline nxt))"
      using 1(1) shorter by simp
    have "sub_text callout_re repl_callout n' (rev l @ b) rest
          = newline # sub_text callout_re repl_callout n' (newline # rev l @ b) nxt"
      using sub_text_line_end[OF le, of repl_callout n' "rev l @ b"] by (simp add: Cons c)
    then show ?thesis by (simp add: step sp ih join_with_Cons)
  qed
qed

lemma preprocess_lines:
  "preprocess_obsidian text
   = join_with [newline] (map rewrite_line (split_on newline (replace_cr (replace_crlf text))))"
  by (simp add: preprocess_obsidian_def re_sub_all sub_text_lines)

subsection \<open>Header lines\<close>

text \<open>
  A header line, in words: optional indentation, the blockquote marker \<open>>\<close>, optional
  blanks, the tag \<open>[!kind]\<close> with a kind of one or more letters, and the title, which is
  the rest of the line.  Indentation and blanks are spaces and tabs.
\<close>

definition is_header :: "string \<Rightarrow> string \<Rightarrow> string \<Rightarrow> bool" where
  "is_header l kind title \<longleftrightarrow>
     (\<exists>ind ws. l = ind @ ''>'' @ ws @ ''[!'' @ kind @ '']'' @ title
        \<and> (\<forall>c \<in> set ind. space_or_tab c) \<and> (\<forall>c \<in> set ws. space_or_tab c)
        \<and> kind \<noteq> [] \<and> (\<forall>c \<in> set kind. is_ascii_letter c))"

lemma dropWhile_run: "\<forall>c \<in> set u. P c \<Longrightarrow> \<not> P x \<Longrightarrow> dropWhile P (u @ x # v) = x # v"
  by (induction u) simp_all

lemma takeWhile_run: "\<forall>c \<in> set u. P c \<Longrightarrow> \<not> P x \<Longrightarrow> takeWhile P (u @ x # v) = u"
  by (induction u) simp_all

lemma is_header_parts:
  assumes "is_header l kind title"
  shows "header_parts l = Some (kind, dropWhile space_or_tab title)"
proof -
  from assms obtain ind ws where
    l: "l = ind @ CHR ''>'' # (ws @ CHR ''['' # CHR ''!'' # (kind @ CHR '']'' # title))"
    and ind: "\<forall>c \<in> set ind. space_or_tab c" and ws: "\<forall>c \<in> set ws. space_or_tab c"
    and ne: "kind \<noteq> []" and kind: "\<forall>c \<in> set kind. is_ascii_letter c"
    unfolding is_header_def by auto
  have a: "dropWhile space_or_tab l = CHR ''>'' # (ws @ CHR ''['' # CHR ''!'' # (kind @ CHR '']'' # title))"
    unfolding l by (rule dropWhile_run[OF ind]) (simp add: space_or_tab_def)
  have b: "dropWhile space_or_tab (ws @ CHR ''['' # CHR ''!'' # (kind @ CHR '']'' # title))
           = CHR ''['' # CHR ''!'' # (kind @ CHR '']'' # title)"
    by (rule dropWhile_run[OF ws]) (simp add: space_or_tab_def)
  have nletter: "\<not> is_ascii_letter (CHR '']'')"
    by (simp add: is_ascii_letter_def is_ascii_upper_def is_ascii_lower_def)
  have c: "takeWhile is_ascii_letter (kind @ CHR '']'' # title) = kind"
    by (rule takeWhile_run[OF kind nletter])
  have d: "dropWhile is_ascii_letter (kind @ CHR '']'' # title) = CHR '']'' # title"
    by (rule dropWhile_run[OF kind nletter])
  have "header_tail (kind @ CHR '']'' # title) = Some (kind, dropWhile space_or_tab title)"
    unfolding header_tail_def c d using ne by simp
  then have "header_tag (ws @ CHR ''['' # CHR ''!'' # (kind @ CHR '']'' # title))
             = Some (kind, dropWhile space_or_tab title)"
    unfolding header_tag_def b by simp
  then show ?thesis unfolding header_parts_def a by simp
qed

lemma header_parts_is_header:
  assumes "header_parts l = Some (kind, t)"
  shows "\<exists>title. is_header l kind title \<and> t = dropWhile space_or_tab title"
proof -
  obtain l2 where a: "dropWhile space_or_tab l = CHR ''>'' # l2"
    and tag: "header_tag l2 = Some (kind, t)"
    using assms unfolding header_parts_def by (auto split: list.splits if_splits)
  obtain l4 where b: "dropWhile space_or_tab l2 = CHR ''['' # CHR ''!'' # l4"
    and tail: "header_tail l4 = Some (kind, t)"
    using tag unfolding header_tag_def by (auto split: list.splits if_splits)
  obtain l6 where k: "kind = takeWhile is_ascii_letter l4" and ne: "kind \<noteq> []"
    and d: "dropWhile is_ascii_letter l4 = CHR '']'' # l6"
    and t: "t = dropWhile space_or_tab l6"
    using tail unfolding header_tail_def Let_def by (auto split: list.splits if_splits)
  have l4: "l4 = kind @ CHR '']'' # l6"
    using takeWhile_dropWhile_id[of is_ascii_letter l4] by (simp only: k d)
  have l2: "l2 = takeWhile space_or_tab l2 @ CHR ''['' # CHR ''!'' # l4"
    using takeWhile_dropWhile_id[of space_or_tab l2] by (simp only: b)
  have l: "l = takeWhile space_or_tab l @ CHR ''>'' # l2"
    using takeWhile_dropWhile_id[of space_or_tab l] by (simp only: a)
  have "l = takeWhile space_or_tab l @ ''>'' @ takeWhile space_or_tab l2 @ ''[!'' @ kind
              @ '']'' @ l6"
    using l l2 l4 by simp
  moreover have "\<forall>c \<in> set (takeWhile space_or_tab l). space_or_tab c"
    by (meson set_takeWhileD)
  moreover have "\<forall>c \<in> set (takeWhile space_or_tab l2). space_or_tab c"
    by (meson set_takeWhileD)
  moreover have "\<forall>c \<in> set kind. is_ascii_letter c"
    unfolding k by (meson set_takeWhileD)
  ultimately have "is_header l kind l6" unfolding is_header_def using ne by blast
  then show ?thesis using t by blast
qed

lemma lstrip_blank: "lstrip (dropWhile space_or_tab t) = lstrip t"
  unfolding lstrip_def
  by (induction t) (auto simp: space_or_tab_def is_space_def)

lemma marker_line_blank: "marker_line kind (dropWhile space_or_tab t) = marker_line kind t"
  by (simp add: marker_line_def strip_def lstrip_blank)

lemma rewrite_header: "is_header l kind title \<Longrightarrow> rewrite_line l = marker_line kind title"
  by (simp add: rewrite_line_def is_header_parts marker_line_blank)

lemma rewrite_other:
  assumes "\<not> (\<exists>kind title. is_header l kind title)"
  shows "rewrite_line l = l"
proof (cases "header_parts l")
  case None
  then show ?thesis by (simp add: rewrite_line_def)
next
  case (Some x)
  obtain kind t where "x = (kind, t)" by (cases x)
  with Some header_parts_is_header[of l kind t] assms show ?thesis by blast
qed

lemma no_cr_replace_cr: "carriage_return \<notin> set (replace_cr s)"
  by (auto simp: replace_cr_def)



subsection \<open>Preprocessing twice\<close>

lemma replace_crlf_id: "carriage_return \<notin> set s \<Longrightarrow> replace_crlf s = s"
  by (induction s rule: replace_crlf.induct) auto

lemma replace_cr_id: "carriage_return \<notin> set s \<Longrightarrow> replace_cr s = s"
  by (induction s) (auto simp: replace_cr_def)

lemma join_split: "join_with [sep] (split_on sep s) = s"
proof (induction s)
  case Nil
  then show ?case by simp
next
  case (Cons c s)
  obtain p ps where sp: "split_on sep s = p # ps"
    by (cases "split_on sep s") (simp_all)
  show ?case
  proof (cases "c = sep")
    case True
    then show ?thesis using Cons by (simp add: join_with_Cons)
  next
    case False
    then show ?thesis using Cons sp by (cases ps) simp_all
  qed
qed

lemma split_join:
  "ps \<noteq> [] \<Longrightarrow> \<forall>p \<in> set ps. sep \<notin> set p \<Longrightarrow> split_on sep (join_with [sep] ps) = ps"
proof (induction ps)
  case Nil
  then show ?case by simp
next
  case (Cons p ps)
  show ?case
  proof (cases ps)
    case Nil
    then show ?thesis using Cons.prems by (simp add: split_on_no_sep)
  next
    case (Cons q qs)
    have "split_on sep (p @ sep # join_with [sep] ps) = p # split_on sep (join_with [sep] ps)"
      by (rule split_on_line) (use Cons.prems in simp)
    moreover have "split_on sep (join_with [sep] ps) = ps"
      using Cons.IH Cons.prems Cons by simp
    ultimately show ?thesis using Cons by simp
  qed
qed

lemma split_on_pieces:
  "p \<in> set (split_on sep s) \<Longrightarrow> sep \<notin> set p \<and> set p \<subseteq> set s"
proof (induction s arbitrary: p)
  case Nil
  then show ?case by simp
next
  case (Cons c s)
  obtain q qs where sp: "split_on sep s = q # qs"
    by (cases "split_on sep s") simp_all
  show ?case
  proof (cases "c = sep")
    case True
    then show ?thesis using Cons by auto
  next
    case False
    then have "p = c # q \<or> p \<in> set qs" using Cons.prems sp by simp
    then show ?thesis
    proof
      assume "p = c # q"
      moreover have "sep \<notin> set q \<and> set q \<subseteq> set s" using Cons.IH[of q] sp by simp
      ultimately show ?thesis using False by auto
    next
      assume "p \<in> set qs"
      then have "sep \<notin> set p \<and> set p \<subseteq> set s" using Cons.IH[of p] sp by simp
      then show ?thesis by auto
    qed
  qed
qed

lemma set_join_with: "set (join_with sep ps) \<subseteq> set sep \<union> \<Union> (set ` set ps)"
  by (induction sep ps rule: join_with.induct) auto

lemma lower_char_code:
  "(of_char (lower_char c) :: nat) =
     (if (65 \<le> (of_char c :: nat) \<and> (of_char c :: nat) \<le> 90)
         \<or> (0xC0 \<le> (of_char c :: nat) \<and> (of_char c :: nat) \<le> 0xDE \<and> (of_char c :: nat) \<noteq> 0xD7)
      then of_char c + 32 else of_char c)"
  by (simp add: lower_char_def Let_def)

lemma lower_char_control:
  assumes "lower_char c = x" and "x = newline \<or> x = carriage_return"
  shows "c = x"
proof -
  have "(of_char (lower_char c) :: nat) = of_char x" using assms(1) by simp
  moreover have "(of_char x :: nat) = 10 \<or> (of_char x :: nat) = 13" using assms(2) by auto
  ultimately have "(of_char c :: nat) = of_char x"
    unfolding lower_char_code by (auto split: if_splits)
  then show ?thesis by (metis char_of_char)
qed

lemma set_strip: "set (strip t) \<subseteq> set t"
  unfolding strip_def rstrip_def lstrip_def
  by (metis (no_types, lifting) set_dropWhileD set_rev subsetI)

lemma marker_line_avoids:
  assumes "x = newline \<or> x = carriage_return" and "x \<notin> set kind" and "x \<notin> set title"
  shows "x \<notin> set (marker_line kind title)"
proof -
  have k: "x \<notin> set (lower kind)"
  proof
    assume "x \<in> set (lower kind)"
    then obtain c where c: "c \<in> set kind" "lower_char c = x" by (auto simp: lower_def)
    from lower_char_control[OF c(2) assms(1)] c(1) assms(2) show False by simp
  qed
  have t: "x \<notin> set (strip title)" using assms(3) set_strip by blast
  show ?thesis using assms(1) k t by (auto simp: marker_line_def)
qed

lemma rewrite_line_avoids:
  assumes "x = newline \<or> x = carriage_return" and "x \<notin> set l"
  shows "x \<notin> set (rewrite_line l)"
proof (cases "\<exists>kind title. is_header l kind title")
  case False
  then show ?thesis using assms(2) by (simp add: rewrite_other)
next
  case True
  then obtain kind title where h: "is_header l kind title" by blast
  then have "set kind \<subseteq> set l" "set title \<subseteq> set l" unfolding is_header_def by auto
  then have "x \<notin> set kind" "x \<notin> set title" using assms(2) by auto
  from marker_line_avoids[OF assms(1) this] show ?thesis using h by (simp add: rewrite_header)
qed

lemma header_parts_marker: "header_parts (marker_line kind title) = None"
  by (simp add: marker_line_def header_parts_def header_tag_def space_or_tab_def)

lemma rewrite_line_twice: "rewrite_line (rewrite_line l) = rewrite_line l"
proof (cases "header_parts l")
  case None
  then show ?thesis by (simp add: rewrite_line_def)
next
  case (Some x)
  obtain kind t where "x = (kind, t)" by (cases x)
  then have "rewrite_line l = marker_line kind t" using Some by (simp add: rewrite_line_def)
  then show ?thesis by (simp add: rewrite_line_def header_parts_marker)
qed

lemma preprocess_fixed:
  assumes "carriage_return \<notin> set y"
    and "\<forall>l \<in> set (split_on newline y). rewrite_line l = l"
  shows "preprocess_obsidian y = y"
proof -
  have "map rewrite_line (split_on newline y) = split_on newline y"
    using assms(2) by (simp add: map_idI)
  then show ?thesis
    using assms(1) by (simp add: preprocess_lines replace_crlf_id replace_cr_id join_split)
qed

lemma preprocess_twice: "preprocess_obsidian (preprocess_obsidian x) = preprocess_obsidian x"
proof -
  define y where "y = replace_cr (replace_crlf x)"
  define ls where "ls = split_on newline y"
  define out where "out = join_with [newline] (map rewrite_line ls)"
  have p: "preprocess_obsidian x = out"
    by (simp add: preprocess_lines out_def ls_def y_def)
  have cr_y: "carriage_return \<notin> set y" unfolding y_def by (rule no_cr_replace_cr)
  have ls: "\<forall>l \<in> set ls. newline \<notin> set l \<and> carriage_return \<notin> set l"
    using split_on_pieces[of _ newline y] cr_y unfolding ls_def by blast
  have ne: "map rewrite_line ls \<noteq> []" by (simp add: ls_def)
  have nl': "\<forall>p \<in> set (map rewrite_line ls). newline \<notin> set p"
    using ls rewrite_line_avoids[of newline] by auto
  have cr': "\<forall>p \<in> set (map rewrite_line ls). carriage_return \<notin> set p"
    using ls rewrite_line_avoids[of carriage_return] by auto
  have cr_out: "carriage_return \<notin> set out"
    using set_join_with[of "[newline]" "map rewrite_line ls"] cr' unfolding out_def by auto
  have sp: "split_on newline out = map rewrite_line ls"
    unfolding out_def by (rule split_join[OF ne nl'])
  have "\<forall>l \<in> set (split_on newline out). rewrite_line l = l"
    unfolding sp by (auto simp: rewrite_line_twice)
  from preprocess_fixed[OF cr_out this] show ?thesis by (simp add: p)
qed

text \<open>
  C7.  Preprocessing the output of the preprocessor again gives the same text: a marker
  line is no header line.  More generally the preprocessor leaves every text as it is that
  has no carriage return and no header line.
\<close>

theorem preprocess_obsidian_idempotent:
  "preprocess_obsidian (preprocess_obsidian x) = preprocess_obsidian x
   \<and> (\<forall>y. carriage_return \<notin> set y
          \<and> (\<forall>l \<in> set (split_on newline y). \<not> (\<exists>kind title. is_header l kind title))
        \<longrightarrow> preprocess_obsidian y = y)"
  using preprocess_twice[of x] preprocess_fixed rewrite_other by blast

theorem preprocess_obsidian_idempotent_witness:
  "preprocess_obsidian (preprocess_obsidian (''> [!note] A'' @ [carriage_return] @ ''b''))
     = ''> <!--callout:note title=\"A\"-->'' @ [newline] @ ''b''
   \<and> preprocess_obsidian (''> <!--callout:note title=\"A\"-->'' @ [newline] @ ''b'')
       = ''> <!--callout:note title=\"A\"-->'' @ [newline] @ ''b''"
proof -
  let ?x = "''> [!note] A'' @ [carriage_return] @ ''b''"
  let ?y = "''> <!--callout:note title=\"A\"-->'' @ [newline] @ ''b''"
  note spec = preprocess_obsidian_idempotent[of ?x]
  have once: "preprocess_obsidian ?x = ?y" by code_simp
  have twice: "preprocess_obsidian (preprocess_obsidian ?x) = ?y"
    using spec once by simp
  have cr: "carriage_return \<notin> set ?y" by simp
  have sp: "split_on newline ?y = [''> <!--callout:note title=\"A\"-->'', ''b'']" by code_simp
  have n1: "header_parts ''> <!--callout:note title=\"A\"-->'' = None"
    and n2: "header_parts ''b'' = None" by code_simp+
  have nh: "\<forall>l \<in> set (split_on newline ?y). \<not> (\<exists>kind title. is_header l kind title)"
    unfolding sp using is_header_parts n1 n2 by fastforce
  have fixed: "preprocess_obsidian ?y = ?y" using spec cr nh by blast
  show ?thesis using twice fixed by blast
qed

section \<open>The placement of the badge\<close>

text \<open>
  C9.  A block without a marker comment stays as it is, and a block whose content starts
  with the tag of a paragraph gets the badge right after this tag.  When white space
  precedes the tag of the first paragraph, as in the output of the converter, the pattern
  \<open>^(<p[^>]*>)\<close> finds nothing and the badge is put in front of the content.  And when the
  title has a backslash, as in \<open>C:\Users\<close>, the title is read as part of a replacement
  template: the post-processor raises instead of returning the block with its badge.
\<close>

theorem transform_callouts_placement:
  "transform_callouts ''<blockquote><p>plain</p></blockquote>''
     = Inr ''<blockquote><p>plain</p></blockquote>''
   \<and> transform_callouts ''<blockquote><p><!--callout:tip-->x</p></blockquote>''
     = Inr ''<blockquote><p><span data-callout=\"tip\"></span> x</p></blockquote>''
   \<and> transform_callouts (''<blockquote>'' @ [newline] @ ''<p><!--callout:tip-->'' @ [newline]
         @ ''x</p>'' @ [newline] @ ''</blockquote>'')
     = Inr (''<blockquote><span data-callout=\"tip\"></span>'' @ [newline] @ ''<p>x</p>''
            @ [newline] @ ''</blockquote>'')
   \<and> transform_callouts ''<blockquote><p><!--callout:note title=\"C:/Users\"-->x</p></blockquote>''
     = Inr ''<blockquote><p><span data-callout=\"note\">C:/Users</span> x</p></blockquote>''
   \<and> isl (transform_callouts (''<blockquote><p><!--callout:note title=\"C:'' @ [backslash]
              @ ''Users\"-->x</p></blockquote>''))"
  by code_simp

end
